theory Spec2Isabelle
  imports "HOL-Library.Log_Nat"
begin

section \<open>Data model of \<^verbatim>\<open>dijkstras_shortest_path.py\<close>\<close>

subsection \<open>Floats\<close>

text \<open>
  Arc weights are floats (\<^verbatim>\<open>read_network\<close> stores \<^verbatim>\<open>float(arc_weight)\<close>, \<^verbatim>\<open>add_arc\<close> documents
  \<^verbatim>\<open>weight : float\<close>), and so are the tentative distances that are sums of them. Every
  finite float is an integer multiple of the smallest positive float, \<^verbatim>\<open>2 ** -1074\<close>; a
  finite float is held as that integer, its number of units. So \<open>Fin n\<close> is the float
  \<^verbatim>\<open>n * 2 ** -1074\<close>, and \<open>PInf\<close> and \<open>NInf\<close> are \<^verbatim>\<open>+infinity\<close> and \<^verbatim>\<open>-infinity\<close>. The two
  zeros of the format compare equal and are one value here. A weight is a finite float, so
  no sum is \<^verbatim>\<open>nan\<close>.
\<close>

datatype dist = NInf | Fin int | PInf

instantiation dist :: linorder
begin

fun less_eq_dist :: "dist \<Rightarrow> dist \<Rightarrow> bool" where
  "less_eq_dist NInf y = True"
| "less_eq_dist (Fin a) NInf = False"
| "less_eq_dist (Fin a) (Fin b) = (a \<le> b)"
| "less_eq_dist (Fin a) PInf = True"
| "less_eq_dist PInf NInf = False"
| "less_eq_dist PInf (Fin b) = False"
| "less_eq_dist PInf PInf = True"

fun less_dist :: "dist \<Rightarrow> dist \<Rightarrow> bool" where
  "less_dist NInf NInf = False"
| "less_dist NInf (Fin b) = True"
| "less_dist NInf PInf = True"
| "less_dist (Fin a) NInf = False"
| "less_dist (Fin a) (Fin b) = (a < b)"
| "less_dist (Fin a) PInf = True"
| "less_dist PInf y = False"

instance
proof
  fix x y z :: dist
  show "(x < y) = (x \<le> y \<and> \<not> y \<le> x)" by (cases x; cases y) auto
  show "x \<le> x" by (cases x) auto
  show "x \<le> y \<Longrightarrow> y \<le> z \<Longrightarrow> x \<le> z" by (cases x; cases y; cases z) auto
  show "x \<le> y \<Longrightarrow> y \<le> x \<Longrightarrow> x = y" by (cases x; cases y) auto
  show "x \<le> y \<or> y \<le> x" by (cases x; cases y) auto
qed

end

text \<open>
  The float of an integer value \<open>n\<close>, in units (\<^verbatim>\<open>float(n)\<close>, exact while
  \<open>\<bar>n\<bar> \<le> 2 ^ 53\<close>).
\<close>

definition float_of_int :: "int \<Rightarrow> int" where
  "float_of_int n = n * 2 ^ 1074"

text \<open>
  Float addition is the exact sum rounded to the nearest float, a tie going to the even
  significand. A float has 53 significant bits: a magnitude of \<open>b\<close> bits keeps its top 53,
  so it is rounded to a multiple of \<open>2 ^ (b - 53)\<close> units (magnitudes below \<open>2 ^ 53\<close> units,
  the subnormal floats and the first binade, are exact).
\<close>

definition expo :: "int \<Rightarrow> nat" where
  "expo a = nat (bitlen a - 53)"

definition round_at :: "nat \<Rightarrow> int \<Rightarrow> int" where
  "round_at k a =
     (let q = a div 2 ^ k;
          r = a mod 2 ^ k
      in if 2 ^ k < 2 * r \<or> (2 * r = 2 ^ k \<and> odd q) then (q + 1) * 2 ^ k else q * 2 ^ k)"

definition round_mag :: "int \<Rightarrow> int" where
  "round_mag a = round_at (expo a) a"

text \<open>
  A rounded magnitude of \<^verbatim>\<open>2 ** 1024\<close> or more (\<open>2 ^ 2098\<close> units) overflows to an infinity.
\<close>

definition overflow_threshold :: int where
  "overflow_threshold = 2 ^ 2098"

definition round_units :: "int \<Rightarrow> dist" where
  "round_units s =
     (if 0 \<le> s
      then (let m = round_mag s in if overflow_threshold \<le> m then PInf else Fin m)
      else (let m = round_mag (- s) in if overflow_threshold \<le> m then NInf else Fin (- m)))"

text \<open>\<^verbatim>\<open>temp_weight + temp_predecessor.value[0]\<close>: a weight plus a distance.\<close>

fun dist_add :: "int \<Rightarrow> dist \<Rightarrow> dist" where
  "dist_add w (Fin d) = round_units (w + d)"
| "dist_add w PInf = PInf"
| "dist_add w NInf = NInf"

subsection \<open>Nodes, arcs and networks\<close>

text \<open>
  Objects are held in a store: the list \<^verbatim>\<open>network.nodes\<close>. A reference to a \<^verbatim>\<open>Node\<close>
  object is its position in that list, so an \<^verbatim>\<open>Arc\<close> refers to its end points by position.
  The only field the search mutates is \<^verbatim>\<open>value\<close>, the two-element list
  \<^verbatim>\<open>[tentative distance, predecessor name]\<close>. (\<^verbatim>\<open>add_node\<close> leaves \<^verbatim>\<open>value\<close> at \<^verbatim>\<open>None\<close>;
  the functions below read \<^verbatim>\<open>value[0]\<close> and \<^verbatim>\<open>value[1]\<close>, so they are modelled on stores
  that hold such a list in every node, which is what initialisation establishes.)
\<close>

record arc =
  weight :: int \<comment> \<open>a finite float, in units\<close>
  from_node :: nat
  to_node :: nat

record node =
  name :: string
  "value" :: "dist \<times> string option"
  arcs_in :: "arc list"
  arcs_out :: "arc list"

record network =
  nodes :: "node list"
  arcs :: "arc list"

datatype error = AttributeError | ValueError | NameError | TypeError

subsection \<open>\<^verbatim>\<open>Network.get_node\<close>\<close>

text \<open>The first node of the list with the given name, or \<^verbatim>\<open>None\<close>.\<close>

fun find_node :: "node list \<Rightarrow> string \<Rightarrow> nat option" where
  "find_node [] nm = None"
| "find_node (n # ns) nm = (if name n = nm then Some 0 else map_option Suc (find_node ns nm))"

definition get_node :: "network \<Rightarrow> string \<Rightarrow> nat option" where
  "get_node net nm = find_node (nodes net) nm"

subsection \<open>\<^verbatim>\<open>spath_iteration\<close>\<close>

text \<open>
  The key of \<^verbatim>\<open>min\<close>: \<^verbatim>\<open>network.get_node(node).value[0]\<close>, an attribute error when the
  name is not in the network.
\<close>

definition dist_key :: "network \<Rightarrow> string \<Rightarrow> error + dist" where
  "dist_key net nm =
     (case get_node net nm of
        None \<Rightarrow> Inl AttributeError
      | Some i \<Rightarrow> Inr (fst (value (nodes net ! i))))"

text \<open>
  Python's \<^verbatim>\<open>min(unvisited, key=...)\<close>: the first element, in iteration order, whose key
  is smallest; \<^verbatim>\<open>ValueError\<close> on an empty collection. The unvisited set is a list without
  duplicates, in the set's iteration order.
\<close>

fun min_rest :: "network \<Rightarrow> string \<Rightarrow> dist \<Rightarrow> string list \<Rightarrow> error + string" where
  "min_rest net best bk [] = Inr best"
| "min_rest net best bk (x # xs) =
     (case dist_key net x of
        Inl e \<Rightarrow> Inl e
      | Inr k \<Rightarrow> if k < bk then min_rest net x k xs else min_rest net best bk xs)"

fun py_min :: "network \<Rightarrow> string list \<Rightarrow> error + string" where
  "py_min net [] = Inl ValueError"
| "py_min net (x # xs) =
     (case dist_key net x of
        Inl e \<Rightarrow> Inl e
      | Inr k \<Rightarrow> min_rest net x k xs)"

text \<open>The body of the \<^verbatim>\<open>for arc in solved_node.arcs_out\<close> loop, and the loop.\<close>

definition relax_arc :: "string \<Rightarrow> node list \<Rightarrow> arc \<Rightarrow> node list" where
  "relax_arc solved_name ns a =
     (let temp_weight = weight a;
          temp_predecessor = from_node a;
          temp_node = to_node a;
          dist_sum = dist_add temp_weight (fst (value (ns ! temp_predecessor)))
      in if dist_sum < fst (value (ns ! temp_node))
         then ns[temp_node := (ns ! temp_node)\<lparr>value := (dist_sum, Some solved_name)\<rparr>]
         else ns)"

definition relax_arcs :: "string \<Rightarrow> node list \<Rightarrow> arc list \<Rightarrow> node list" where
  "relax_arcs solved_name ns as = foldl (relax_arc solved_name) ns as"

text \<open>
  One call: the name solved (or \<^verbatim>\<open>None\<close>), the network and the unvisited set as the
  call leaves them. The body of the \<^verbatim>\<open>while\<close> ends in \<^verbatim>\<open>return\<close>, so it runs at most once.
\<close>

definition spath_iteration ::
  "network \<Rightarrow> string list \<Rightarrow> error + (string option \<times> network \<times> string list)" where
  "spath_iteration net unvisited =
     (if length unvisited \<noteq> 0 then
        (case py_min net unvisited of
           Inl e \<Rightarrow> if e = ValueError then Inr (None, net, unvisited) else Inl e
         | Inr solved_name \<Rightarrow>
             (case get_node net solved_name of
                None \<Rightarrow> Inl AttributeError
              | Some i \<Rightarrow>
                  Inr (Some solved_name,
                       net\<lparr>nodes := relax_arcs solved_name (nodes net) (arcs_out (nodes net ! i))\<rparr>,
                       removeAll solved_name unvisited)))
      else Inr (None, net, unvisited))"

subsection \<open>\<^verbatim>\<open>spath_extract_path\<close>\<close>

text \<open>
  The \<^verbatim>\<open>while current_node.value[1] is not None\<close> loop may run forever (a cycle of
  predecessors): \<open>None\<close> is "does not return".
\<close>

partial_function (option) extract_loop ::
  "network \<Rightarrow> nat \<Rightarrow> string list \<Rightarrow> (error + string list) option" where
  "extract_loop net current_node path =
     (case snd (value (nodes net ! current_node)) of
        None \<Rightarrow> Some (Inr path)
      | Some predecessor_name \<Rightarrow>
          (case get_node net predecessor_name of
             None \<Rightarrow> Some (Inl AttributeError)
           | Some predecessor_node \<Rightarrow>
               extract_loop net predecessor_node (path @ [predecessor_name])))"

declare extract_loop.simps [code]

definition spath_extract_path :: "network \<Rightarrow> string \<Rightarrow> (error + string list) option" where
  "spath_extract_path net destination_name =
     (case get_node net destination_name of
        None \<Rightarrow> Some (Inl AttributeError)
      | Some destination_node \<Rightarrow>
          (case extract_loop net destination_node [] of
             None \<Rightarrow> None
           | Some (Inl e) \<Rightarrow> Some (Inl e)
           | Some (Inr path) \<Rightarrow> Some (Inr (rev path @ [destination_name]))))"

subsection \<open>\<^verbatim>\<open>spath_algorithm\<close>\<close>

text \<open>
  Modelled from the spec: \<^verbatim>\<open>spath_initialise\<close> is called by \<^verbatim>\<open>spath_algorithm\<close> and defined
  nowhere in the source file. The specification's driver, phase Initialize: every node's
  tentative distance becomes \<^verbatim>\<open>+infinity\<close> and its predecessor none, the source node's
  tentative distance becomes 0, and the unvisited set is the set of all node names. The
  specification says of the reference that a lookup of an absent name is not guarded and
  fails on the attribute access.

  Python does not fix the order in which a set is iterated. The parameter \<open>order\<close> is
  that order: it turns the names put into the set into the list of the set's elements as
  \<^verbatim>\<open>min\<close> will meet them. (\<^verbatim>\<open>discard\<close> takes one element out and leaves the others in
  their order.)
\<close>

definition spath_initialise ::
  "(string list \<Rightarrow> string list) \<Rightarrow> network \<Rightarrow> string \<Rightarrow> error + (network \<times> string list)" where
  "spath_initialise order net source_name =
     (let ns = map (\<lambda>n. n\<lparr>value := (PInf, None)\<rparr>) (nodes net) in
      case find_node ns source_name of
        None \<Rightarrow> Inl AttributeError
      | Some i \<Rightarrow>
          Inr (net\<lparr>nodes := ns[i := (ns ! i)\<lparr>value := (Fin 0, None)\<rparr>]\<rparr>,
               order (map name ns)))"

text \<open>
  What every iteration order of a set does: it lists each element once. (\<open>remdups\<close>, which
  keeps the last occurrence of each name, is one such order.)
\<close>

definition set_order :: "(string list \<Rightarrow> string list) \<Rightarrow> bool" where
  "set_order order \<longleftrightarrow> (\<forall>xs. set (order xs) = set xs \<and> distinct (order xs))"

text \<open>
  The loop of the driver. \<^verbatim>\<open>solved = step(); while solved != destination: if solved is
  None: break; solved = step()\<close> is: step until the destination or \<^verbatim>\<open>None\<close> comes out.
  The last component of the result counts the calls that solved a node.
\<close>

function spath_loop ::
  "network \<Rightarrow> string list \<Rightarrow> string \<Rightarrow> nat \<Rightarrow> error + (string option \<times> network \<times> nat)" where
  "spath_loop net unvisited destination_name steps =
     (case spath_iteration net unvisited of
        Inl e \<Rightarrow> Inl e
      | Inr (None, net', unvisited') \<Rightarrow> Inr (None, net', steps)
      | Inr (Some solved_node_name, net', unvisited') \<Rightarrow>
          if solved_node_name \<noteq> destination_name
          then spath_loop net' unvisited' destination_name (Suc steps)
          else Inr (Some solved_node_name, net', Suc steps))"
  by pat_completeness auto

text \<open>
  \<^verbatim>\<open>spath_algorithm\<close> looks the name \<^verbatim>\<open>spath_initialise\<close> up in the module's global
  names when it is called. The names a module binds are a dictionary; what is bound is
  either an initialiser (a function of a network and a source name that returns the
  unvisited set and leaves the network initialised) or some other object.
\<close>

datatype binding =
  Initialiser "network \<Rightarrow> string \<Rightarrow> error + (network \<times> string list)"
| Other

text \<open>
  The names the source file binds at top level: the import, three functions and three
  classes.
\<close>

definition module_globals :: "string \<rightharpoonup> binding" where
  "module_globals =
     [''np'' \<mapsto> Other,
      ''spath_iteration'' \<mapsto> Other,
      ''spath_extract_path'' \<mapsto> Other,
      ''spath_algorithm'' \<mapsto> Other,
      ''Node'' \<mapsto> Other,
      ''Arc'' \<mapsto> Other,
      ''Network'' \<mapsto> Other]"

text \<open>
  The same names together with the initialiser the specification describes, for a given
  iteration order of the unvisited set.
\<close>

definition spec_globals :: "(string list \<Rightarrow> string list) \<Rightarrow> (string \<rightharpoonup> binding)" where
  "spec_globals order =
     module_globals(''spath_initialise'' \<mapsto> Initialiser (spath_initialise order))"

text \<open>
  The entry point. The result is \<open>None\<close> when the call does not return, \<open>Inl\<close> an
  exception, \<open>Inr\<close> the pair \<^verbatim>\<open>(distance, path)\<close>, either both \<^verbatim>\<open>None\<close> or both present.
\<close>

definition spath_algorithm ::
  "(string \<rightharpoonup> binding) \<Rightarrow> network \<Rightarrow> string \<Rightarrow> string
     \<Rightarrow> (error + (dist option \<times> string list option)) option" where
  "spath_algorithm globals net source_name destination_name =
     (case globals ''spath_initialise'' of
        None \<Rightarrow> Some (Inl NameError)
      | Some Other \<Rightarrow> Some (Inl TypeError)
      | Some (Initialiser initialise) \<Rightarrow>
          (case initialise net source_name of
             Inl e \<Rightarrow> Some (Inl e)
           | Inr (net0, unvisited_set) \<Rightarrow>
               (case spath_loop net0 unvisited_set destination_name 0 of
                  Inl e \<Rightarrow> Some (Inl e)
                | Inr (None, net', steps) \<Rightarrow> Some (Inr (None, None))
                | Inr (Some solved_node_name, net', steps) \<Rightarrow>
                    (case get_node net' destination_name of
                       None \<Rightarrow> Some (Inl AttributeError)
                     | Some destination_node \<Rightarrow>
                         (case spath_extract_path net' destination_name of
                            None \<Rightarrow> None
                          | Some (Inl e) \<Rightarrow> Some (Inl e)
                          | Some (Inr path) \<Rightarrow>
                              Some (Inr (Some (fst (value (nodes net' ! destination_node))),
                                         Some path)))))))"

text \<open>Repeated calls of \<^verbatim>\<open>spath_iteration\<close> on one network and one unvisited set.\<close>

fun run_steps :: "nat \<Rightarrow> network \<Rightarrow> string list \<Rightarrow> error + (network \<times> string list)" where
  "run_steps 0 net unvisited = Inr (net, unvisited)"
| "run_steps (Suc k) net unvisited =
     (case spath_iteration net unvisited of
        Inl e \<Rightarrow> Inl e
      | Inr (solved, net', unvisited') \<Rightarrow> run_steps k net' unvisited')"

section \<open>Graphs and paths\<close>

text \<open>
  A network as \<^verbatim>\<open>add_node\<close> and \<^verbatim>\<open>add_arc\<close> build it from its own nodes (as
  \<^verbatim>\<open>read_network\<close> does): node names are unique, every arc joins two nodes of the network,
  and \<^verbatim>\<open>arcs_out\<close> of a node holds the arcs that leave it, in the order they were added.
\<close>

definition wf_network :: "network \<Rightarrow> bool" where
  "wf_network net \<longleftrightarrow>
     distinct (map name (nodes net)) \<and>
     list_all (\<lambda>a. from_node a < length (nodes net) \<and> to_node a < length (nodes net)) (arcs net) \<and>
     list_all (\<lambda>i. arcs_out (nodes net ! i) = filter (\<lambda>a. from_node a = i) (arcs net))
       [0..<length (nodes net)]"

definition nonneg_weights :: "network \<Rightarrow> bool" where
  "nonneg_weights net \<longleftrightarrow> list_all (\<lambda>a. 0 \<le> weight a) (arcs net)"

text \<open>
  A directed path is a chain of arcs of the network; its total weight is the exact sum of
  their weights (in units).
\<close>

fun is_path :: "network \<Rightarrow> nat \<Rightarrow> arc list \<Rightarrow> nat \<Rightarrow> bool" where
  "is_path net u [] v = (u = v)"
| "is_path net u (a # as) v =
     (a \<in> set (arcs net) \<and> from_node a = u \<and> is_path net (to_node a) as v)"

definition path_weight :: "arc list \<Rightarrow> int" where
  "path_weight as = sum_list (map weight as)"


text \<open>
  A distance plus a weight in float arithmetic, written from the arithmetic and not from
  the code: the exact sum, rounded.
\<close>

definition float_plus :: "dist \<Rightarrow> int \<Rightarrow> dist" where
  "float_plus d w = (case d of Fin k \<Rightarrow> round_units (k + w) | PInf \<Rightarrow> PInf | NInf \<Rightarrow> NInf)"

text \<open>
  The weight of a path as float addition accumulates it, arc by arc from the start of the
  path, and the minimum of these weights over the paths from \<open>u\<close> to \<open>v\<close>.
\<close>

definition float_path_weight :: "arc list \<Rightarrow> dist" where
  "float_path_weight as = foldl (\<lambda>d a. float_plus d (weight a)) (Fin 0) as"

definition min_float_path_weight :: "network \<Rightarrow> nat \<Rightarrow> nat \<Rightarrow> dist \<Rightarrow> bool" where
  "min_float_path_weight net u v D \<longleftrightarrow>
     (\<forall>p. is_path net u p v \<longrightarrow> D \<le> float_path_weight p) \<and>
     (D = PInf \<or> (\<exists>p. is_path net u p v \<and> D = float_path_weight p))"

text \<open>The distances that are floats: the infinities and the fixed points of rounding.\<close>

fun is_float :: "dist \<Rightarrow> bool" where
  "is_float (Fin n) = (round_units n = Fin n)"
| "is_float PInf = True"
| "is_float NInf = True"

text \<open>The tentative distance of the node at a position of the store.\<close>

abbreviation dist_of :: "node list \<Rightarrow> nat \<Rightarrow> dist" where
  "dist_of ns i \<equiv> fst (value (ns ! i))"

section \<open>The specification's relaxation rule\<close>

text \<open>
  The relaxation of one arc in the specification's words: the candidate is the solved
  node's tentative distance plus the arc's weight, and the neighbour takes the candidate and
  the solved node's name when the candidate is strictly smaller than its tentative distance.
\<close>

definition candidate :: "node list \<Rightarrow> nat \<Rightarrow> arc \<Rightarrow> dist" where
  "candidate ns solved a = float_plus (fst (value (ns ! solved))) (weight a)"

definition relax_spec :: "nat \<Rightarrow> node list \<Rightarrow> arc \<Rightarrow> node list" where
  "relax_spec solved ns a =
     (let neighbor = to_node a
      in if candidate ns solved a < fst (value (ns ! neighbor))
         then ns[neighbor :=
                   (ns ! neighbor)\<lparr>value := (candidate ns solved a, Some (name (ns ! solved)))\<rparr>]
         else ns)"

section \<open>The store after initialisation\<close>

text \<open>The store as \<^verbatim>\<open>spath_initialise\<close> leaves it when the source is at position \<open>i\<close>.\<close>

definition init_nodes :: "node list \<Rightarrow> nat \<Rightarrow> node list" where
  "init_nodes ns i =
     (map (\<lambda>n. n\<lparr>value := (PInf, None)\<rparr>) ns)
       [i := (map (\<lambda>n. n\<lparr>value := (PInf, None)\<rparr>) ns ! i)\<lparr>value := (Fin 0, None)\<rparr>]"

section \<open>The invariant of the search\<close>

text \<open>
  For the source at position \<open>src\<close>: the source's distance is at most 0; every arc that
  leaves a solved node has been relaxed; no solved node is farther than an unvisited one;
  and every distance but \<^verbatim>\<open>+infinity\<close> is the float weight of a path from the source.
\<close>

definition search_inv :: "nat \<Rightarrow> network \<Rightarrow> string list \<Rightarrow> bool" where
  "search_inv src net unv \<longleftrightarrow>
     wf_network net \<and> nonneg_weights net \<and> src < length (nodes net) \<and>
     set unv \<subseteq> set (map name (nodes net)) \<and>
     dist_of (nodes net) src \<le> Fin 0 \<and>
     (\<forall>a\<in>set (arcs net). name (nodes net ! from_node a) \<notin> set unv \<longrightarrow>
        dist_of (nodes net) (to_node a)
          \<le> dist_add (weight a) (dist_of (nodes net) (from_node a))) \<and>
     (\<forall>i<length (nodes net). \<forall>j<length (nodes net).
        name (nodes net ! i) \<notin> set unv \<longrightarrow> name (nodes net ! j) \<in> set unv \<longrightarrow>
        dist_of (nodes net) i \<le> dist_of (nodes net) j) \<and>
     (\<forall>i<length (nodes net). dist_of (nodes net) i \<noteq> PInf \<longrightarrow>
        (\<exists>p. is_path net src p i \<and> float_path_weight p = dist_of (nodes net) i))"

text \<open>
  The predecessors: every recorded predecessor names a solved node, and along the chain of
  predecessors of a solved node the rank (the order in which nodes were solved) falls.
\<close>

definition pred_inv :: "network \<Rightarrow> string list \<Rightarrow> (nat \<Rightarrow> nat) \<Rightarrow> nat \<Rightarrow> bool" where
  "pred_inv net unv rank b \<longleftrightarrow>
     (\<forall>i<length (nodes net). \<forall>nm. snd (value (nodes net ! i)) = Some nm \<longrightarrow>
        (\<exists>u<length (nodes net). name (nodes net ! u) = nm \<and> nm \<notin> set unv \<and>
           (name (nodes net ! i) \<notin> set unv \<longrightarrow> rank u < rank i))) \<and>
     (\<forall>u<length (nodes net). name (nodes net ! u) \<notin> set unv \<longrightarrow> rank u < b)"

section \<open>Example networks\<close>

text \<open>
  The specification's scenario: nodes \<^verbatim>\<open>A\<close>, \<^verbatim>\<open>B\<close>, \<^verbatim>\<open>C\<close>, \<^verbatim>\<open>D\<close> and the arcs
  \<^verbatim>\<open>A->B(1)\<close>, \<^verbatim>\<open>A->C(4)\<close>, \<^verbatim>\<open>B->C(2)\<close>, \<^verbatim>\<open>B->D(5)\<close>, \<^verbatim>\<open>C->D(1)\<close>, as \<^verbatim>\<open>add_node\<close> and
  \<^verbatim>\<open>add_arc\<close> build it (\<^verbatim>\<open>value\<close> is what the search overwrites).
\<close>

definition spec_scenario :: network where
  "spec_scenario =
     (let ab = \<lparr>weight = float_of_int 1, from_node = 0, to_node = 1\<rparr>;
          ac = \<lparr>weight = float_of_int 4, from_node = 0, to_node = 2\<rparr>;
          bc = \<lparr>weight = float_of_int 2, from_node = 1, to_node = 2\<rparr>;
          bd = \<lparr>weight = float_of_int 5, from_node = 1, to_node = 3\<rparr>;
          cd = \<lparr>weight = float_of_int 1, from_node = 2, to_node = 3\<rparr>
      in \<lparr>nodes =
            [\<lparr>name = ''A'', value = (PInf, None), arcs_in = [], arcs_out = [ab, ac]\<rparr>,
             \<lparr>name = ''B'', value = (PInf, None), arcs_in = [ab], arcs_out = [bc, bd]\<rparr>,
             \<lparr>name = ''C'', value = (PInf, None), arcs_in = [ac, bc], arcs_out = [cd]\<rparr>,
             \<lparr>name = ''D'', value = (PInf, None), arcs_in = [bd, cd], arcs_out = []\<rparr>],
          arcs = [ab, ac, bc, bd, cd]\<rparr>)"

text \<open>
  The weights are the floats of these integers, \<open>float_of_int 1\<close> and so on.
\<close>

text \<open>One node \<^verbatim>\<open>A\<close> at tentative distance \<^verbatim>\<open>+infinity\<close>, no arc.\<close>

definition lone_node :: network where
  "lone_node =
     \<lparr>nodes = [\<lparr>name = ''A'', value = (PInf, None), arcs_in = [], arcs_out = []\<rparr>],
      arcs = []\<rparr>"

text \<open>Two nodes \<^verbatim>\<open>A\<close> and \<^verbatim>\<open>B\<close>, no arc.\<close>

definition two_isolated_nodes :: network where
  "two_isolated_nodes =
     \<lparr>nodes = [\<lparr>name = ''A'', value = (PInf, None), arcs_in = [], arcs_out = []\<rparr>,
               \<lparr>name = ''B'', value = (PInf, None), arcs_in = [], arcs_out = []\<rparr>],
      arcs = []\<rparr>"

text \<open>
  Two nodes and the arc from \<^verbatim>\<open>A\<close> to \<^verbatim>\<open>B\<close> of weight 3, as initialisation for the
  source \<^verbatim>\<open>A\<close> leaves it.
\<close>

definition one_arc :: network where
  "one_arc =
     (let ab = \<lparr>weight = float_of_int 3, from_node = 0, to_node = 1\<rparr> in
      \<lparr>nodes = [\<lparr>name = ''A'', value = (Fin 0, None), arcs_in = [], arcs_out = [ab]\<rparr>,
                \<lparr>name = ''B'', value = (PInf, None), arcs_in = [ab], arcs_out = []\<rparr>],
       arcs = [ab]\<rparr>)"

text \<open>The same network after \<^verbatim>\<open>A\<close> has been solved.\<close>

definition one_arc_relaxed :: network where
  "one_arc_relaxed =
     (let ab = \<lparr>weight = float_of_int 3, from_node = 0, to_node = 1\<rparr> in
      \<lparr>nodes = [\<lparr>name = ''A'', value = (Fin 0, None), arcs_in = [], arcs_out = [ab]\<rparr>,
                \<lparr>name = ''B'', value = (Fin (float_of_int 3), Some ''A''), arcs_in = [ab], arcs_out = []\<rparr>],
       arcs = [ab]\<rparr>)"

text \<open>One node \<^verbatim>\<open>S\<close> with an arc of weight -1 to itself.\<close>

definition negative_loop :: network where
  "negative_loop =
     (let ss = \<lparr>weight = float_of_int (- 1), from_node = 0, to_node = 0\<rparr> in
      \<lparr>nodes = [\<lparr>name = ''S'', value = (PInf, None), arcs_in = [ss], arcs_out = [ss]\<rparr>],
       arcs = [ss]\<rparr>)"

text \<open>The same network as the search from \<^verbatim>\<open>S\<close> leaves it.\<close>

definition negative_loop_solved :: network where
  "negative_loop_solved =
     (let ss = \<lparr>weight = float_of_int (- 1), from_node = 0, to_node = 0\<rparr> in
      \<lparr>nodes = [\<lparr>name = ''S'', value = (Fin (float_of_int (- 1)), Some ''S''), arcs_in = [ss], arcs_out = [ss]\<rparr>],
       arcs = [ss]\<rparr>)"

text \<open>
  A search under way: \<^verbatim>\<open>A\<close> is solved, and \<^verbatim>\<open>B\<close>, \<^verbatim>\<open>C\<close>, \<^verbatim>\<open>D\<close> stand at 3, 10 and 7 with
  predecessor \<^verbatim>\<open>A\<close>. The arcs out of \<^verbatim>\<open>B\<close> are \<^verbatim>\<open>B->C(4)\<close> and \<^verbatim>\<open>B->D(4)\<close>.
\<close>

definition relax_example :: network where
  "relax_example =
     (let ab = \<lparr>weight = float_of_int 3, from_node = 0, to_node = 1\<rparr>;
          ac = \<lparr>weight = float_of_int 10, from_node = 0, to_node = 2\<rparr>;
          ad = \<lparr>weight = float_of_int 7, from_node = 0, to_node = 3\<rparr>;
          bc = \<lparr>weight = float_of_int 4, from_node = 1, to_node = 2\<rparr>;
          bd = \<lparr>weight = float_of_int 4, from_node = 1, to_node = 3\<rparr>
      in \<lparr>nodes =
            [\<lparr>name = ''A'', value = (Fin 0, None), arcs_in = [], arcs_out = [ab, ac, ad]\<rparr>,
             \<lparr>name = ''B'', value = (Fin (float_of_int 3), Some ''A''), arcs_in = [ab],
                arcs_out = [bc, bd]\<rparr>,
             \<lparr>name = ''C'', value = (Fin (float_of_int 10), Some ''A''), arcs_in = [ac, bc],
                arcs_out = []\<rparr>,
             \<lparr>name = ''D'', value = (Fin (float_of_int 7), Some ''A''), arcs_in = [ad, bd],
                arcs_out = []\<rparr>],
          arcs = [ab, ac, ad, bc, bd]\<rparr>)"

text \<open>
  The same network after \<^verbatim>\<open>B\<close> has been solved: \<^verbatim>\<open>C\<close> has gone to 7 through \<^verbatim>\<open>B\<close>, and
  \<^verbatim>\<open>D\<close>, for which the candidate 7 is a tie, is as it was.
\<close>

definition relax_example_relaxed :: network where
  "relax_example_relaxed =
     (let ab = \<lparr>weight = float_of_int 3, from_node = 0, to_node = 1\<rparr>;
          ac = \<lparr>weight = float_of_int 10, from_node = 0, to_node = 2\<rparr>;
          ad = \<lparr>weight = float_of_int 7, from_node = 0, to_node = 3\<rparr>;
          bc = \<lparr>weight = float_of_int 4, from_node = 1, to_node = 2\<rparr>;
          bd = \<lparr>weight = float_of_int 4, from_node = 1, to_node = 3\<rparr>
      in \<lparr>nodes =
            [\<lparr>name = ''A'', value = (Fin 0, None), arcs_in = [], arcs_out = [ab, ac, ad]\<rparr>,
             \<lparr>name = ''B'', value = (Fin (float_of_int 3), Some ''A''), arcs_in = [ab],
                arcs_out = [bc, bd]\<rparr>,
             \<lparr>name = ''C'', value = (Fin (float_of_int 7), Some ''B''), arcs_in = [ac, bc],
                arcs_out = []\<rparr>,
             \<lparr>name = ''D'', value = (Fin (float_of_int 7), Some ''A''), arcs_in = [ad, bd],
                arcs_out = []\<rparr>],
          arcs = [ab, ac, ad, bc, bd]\<rparr>)"


section \<open>Termination of the driver's loop\<close>

lemma min_rest_mem: "min_rest net best bk xs = Inr r \<Longrightarrow> r = best \<or> r \<in> set xs"
  by (induction xs arbitrary: best bk) (auto split: sum.splits if_splits)

lemma py_min_mem: "py_min net xs = Inr r \<Longrightarrow> r \<in> set xs"
  by (cases xs) (auto split: sum.splits dest: min_rest_mem)

lemma removeAll_length_less: "x \<in> set xs \<Longrightarrow> length (removeAll x xs) < length xs"
  by (induction xs) (auto simp: less_Suc_eq_le length_removeAll_less_eq)

lemma spath_iteration_shrinks:
  "spath_iteration net unv = Inr (Some s, net', unv') \<Longrightarrow> length unv' < length unv"
  by (auto simp: spath_iteration_def split: if_splits sum.splits option.splits
      dest!: py_min_mem intro: removeAll_length_less)

termination spath_loop
  by (relation "measure (\<lambda>(net, unv, d, k). length unv)") (auto dest: spath_iteration_shrinks)

declare spath_loop.simps [simp del]

section \<open>Auxiliary facts\<close>



subsection \<open>Float rounding\<close>

lemma expo_small: "a < 2 ^ 53 \<Longrightarrow> expo a = 0"
  using bitlen_le_iff_power [of a 53] by (simp add: expo_def)

lemma expo_bounds:
  assumes "2 ^ 53 \<le> a"
  shows "0 < expo a" and "2 ^ (52 + expo a) \<le> a" and "a < 2 ^ (53 + expo a)"
proof -
  from assms have pos: "0 < a" by (simp add: less_le_trans [of 0 "2 ^ 53"])
  from assms bitlen_le_iff_power [of a 53] have b: "53 < bitlen a" by simp
  then show "0 < expo a" by (simp add: expo_def)
  from b have e1: "nat (bitlen a - 1) = 52 + expo a" and e2: "nat (bitlen a) = 53 + expo a"
    by (simp_all add: expo_def)
  from bitlen_bounds [OF pos] show "2 ^ (52 + expo a) \<le> a" and "a < 2 ^ (53 + expo a)"
    by (simp_all add: e1 e2)
qed

lemma expo_unique:
  assumes "0 < k" and "2 ^ (52 + k) \<le> a" and "a < 2 ^ (53 + k)"
  shows "expo a = k"
proof -
  have "(2::int) ^ 53 \<le> 2 ^ (52 + k)" using assms(1) by (intro power_increasing) simp_all
  with assms(2) have a: "2 ^ 53 \<le> a" by simp
  note b = expo_bounds [OF a]
  have "\<not> expo a < k"
  proof
    assume "expo a < k"
    then have "(2::int) ^ (53 + expo a) \<le> 2 ^ (52 + k)" by (intro power_increasing) simp_all
    with b(3) assms(2) show False by simp
  qed
  moreover have "\<not> k < expo a"
  proof
    assume "k < expo a"
    then have "(2::int) ^ (53 + k) \<le> 2 ^ (52 + expo a)" by (intro power_increasing) simp_all
    with b(2) assms(3) show False by simp
  qed
  ultimately show ?thesis by simp
qed

lemma expo_mono:
  assumes "a \<le> b"
  shows "expo a \<le> expo b"
proof -
  from assms have "nat a \<le> nat b" by simp
  then have "floorlog 2 (nat a) \<le> floorlog 2 (nat b)" by (rule floorlog_mono)
  then show ?thesis by (simp add: expo_def bitlen_def)
qed

lemma div_times_le:
  assumes "0 < (p::int)"
  shows "(a div p) * p \<le> a"
proof -
  have "a div p * p + a mod p = a" by (rule div_mult_mod_eq)
  moreover have "0 \<le> a mod p" using assms by simp
  ultimately show ?thesis by linarith
qed

lemma round_at_zero [simp]: "round_at 0 a = a"
  by (simp add: round_at_def)

lemma round_at_between:
  "(a div 2 ^ k) * 2 ^ k \<le> round_at k a \<and> round_at k a \<le> (a div 2 ^ k + 1) * 2 ^ k"
  by (simp add: round_at_def Let_def algebra_simps)

lemma round_at_dvd: "2 ^ k dvd round_at k a"
  by (simp add: round_at_def Let_def)

lemma round_at_exact: "2 ^ k dvd a \<Longrightarrow> round_at k a = a"
  by (simp add: round_at_def Let_def mod_eq_0_iff_dvd [THEN iffD2])

lemma round_at_mono:
  assumes "a \<le> b"
  shows "round_at k a \<le> round_at k b"
proof -
  let ?p = "(2::int) ^ k"
  have p: "0 < ?p" by simp
  have q: "a div ?p \<le> b div ?p" using assms p by (rule zdiv_mono1)
  show ?thesis
  proof (cases "a div ?p = b div ?p")
    case True
    have "a div ?p * ?p + a mod ?p = a" "b div ?p * ?p + b mod ?p = b"
      by (rule div_mult_mod_eq)+
    moreover have "a div ?p * ?p = b div ?p * ?p" using True by simp
    ultimately have "a mod ?p \<le> b mod ?p" using assms by linarith
    with True show ?thesis by (auto simp: round_at_def Let_def)
  next
    case False
    with q have "a div ?p + 1 \<le> b div ?p" by simp
    then have "(a div ?p + 1) * ?p \<le> (b div ?p) * ?p" using p by (simp add: mult_right_mono)
    with round_at_between [of a k] round_at_between [of b k] show ?thesis by linarith
  qed
qed

lemma round_mag_small: "a < 2 ^ 53 \<Longrightarrow> round_mag a = a"
  by (simp add: round_mag_def expo_small)

lemma round_mag_large:
  assumes "2 ^ 53 \<le> a"
  shows "2 ^ (52 + expo a) \<le> round_mag a" and "round_mag a \<le> 2 ^ (53 + expo a)"
    and "2 ^ expo a dvd round_mag a"
proof -
  define p :: int where "p = 2 ^ expo a"
  define c :: int where "c = 2 ^ 52"
  note b = expo_bounds [OF assms]
  have p: "0 < p" by (simp add: p_def)
  have lo: "(2::int) ^ (52 + expo a) = c * p" and hi: "(2::int) ^ (53 + expo a) = (c + c) * p"
    by (simp_all add: p_def c_def power_add)
  have between: "(a div p) * p \<le> round_mag a" "round_mag a \<le> (a div p + 1) * p"
    using round_at_between [of a "expo a"] by (simp_all add: round_mag_def p_def)
  from b(2) lo have "c * p \<le> a" by simp
  then have "(c * p) div p \<le> a div p" using p by (rule zdiv_mono1)
  then have "c \<le> a div p" using p by simp
  then have "c * p \<le> (a div p) * p" using p by (rule mult_right_mono [OF _ less_imp_le])
  with between(1) have "c * p \<le> round_mag a" by linarith
  then show "2 ^ (52 + expo a) \<le> round_mag a" by (simp only: lo)
  from b(3) hi have "a < (c + c) * p" by simp
  moreover have "(a div p) * p \<le> a" using p by (rule div_times_le)
  ultimately have "(a div p) * p < (c + c) * p" by linarith
  then have "a div p < c + c" using p by (simp only: mult_less_cancel_right_pos)
  then have "a div p + 1 \<le> c + c" by simp
  then have "(a div p + 1) * p \<le> (c + c) * p" using p by (rule mult_right_mono [OF _ less_imp_le])
  with between(2) have "round_mag a \<le> (c + c) * p" by linarith
  then show "round_mag a \<le> 2 ^ (53 + expo a)" by (simp only: hi)
  show "2 ^ expo a dvd round_mag a" by (simp add: round_mag_def round_at_dvd)
qed

lemma round_mag_nonneg: "0 \<le> a \<Longrightarrow> 0 \<le> round_mag a"
proof (cases "a < 2 ^ 53")
  case True
  assume "0 \<le> a"
  with True show ?thesis by (simp add: round_mag_small)
next
  case False
  then have "2 ^ 53 \<le> a" by simp
  from round_mag_large(1) [OF this] show ?thesis
    using zero_le_power [of "2::int" "52 + expo a"] by linarith
qed

lemma round_mag_idem: "round_mag (round_mag a) = round_mag a"
proof (cases "a < 2 ^ 53")
  case True
  then show ?thesis by (simp add: round_mag_small)
next
  case False
  then have a: "2 ^ 53 \<le> a" by simp
  note l = round_mag_large [OF a] and b = expo_bounds [OF a]
  let ?m = "round_mag a"
  show ?thesis
  proof (cases "?m < 2 ^ (53 + expo a)")
    case True
    from expo_unique [OF b(1) l(1) True] have "expo ?m = expo a" .
    with l(3) show ?thesis by (simp add: round_mag_def [of ?m] round_at_exact)
  next
    case False
    with l(2) have m: "?m = 2 ^ (53 + expo a)" by simp
    have "expo ?m = Suc (expo a)"
      unfolding m by (rule expo_unique) simp_all
    moreover have "(2::int) ^ Suc (expo a) dvd 2 ^ (53 + expo a)"
      by (rule le_imp_power_dvd) simp
    ultimately show ?thesis unfolding m by (simp add: round_mag_def round_at_exact)
  qed
qed

lemma round_mag_mono:
  assumes "a \<le> b"
  shows "round_mag a \<le> round_mag b"
proof (cases "b < 2 ^ 53")
  case True
  with assms show ?thesis by (simp add: round_mag_small)
next
  case False
  then have b: "2 ^ 53 \<le> b" by simp
  note lb = round_mag_large [OF b]
  show ?thesis
  proof (cases "a < 2 ^ 53")
    case True
    have "(2::int) ^ 53 \<le> 2 ^ (52 + expo b)"
      using expo_bounds(1) [OF b] by (intro power_increasing) simp_all
    with True lb(1) show ?thesis by (simp add: round_mag_small)
  next
    case False
    then have a: "2 ^ 53 \<le> a" by simp
    note la = round_mag_large [OF a]
    show ?thesis
    proof (cases "expo a = expo b")
      case True
      then show ?thesis using round_at_mono [OF assms, of "expo b"] by (simp add: round_mag_def)
    next
      case False
      with expo_mono [OF assms] have "expo a < expo b" by simp
      then have "(2::int) ^ (53 + expo a) \<le> 2 ^ (52 + expo b)"
        by (intro power_increasing) simp_all
      with la(2) lb(1) show ?thesis by linarith
    qed
  qed
qed

lemma overflow_threshold_pos: "0 < overflow_threshold"
  by (simp add: overflow_threshold_def)

lemma round_units_zero [simp]: "round_units 0 = Fin 0"
  using overflow_threshold_pos by (simp add: round_units_def round_mag_small)

lemma round_units_mono:
  assumes "s \<le> t"
  shows "round_units s \<le> round_units t"
proof -
  consider "0 \<le> s" | "s < 0" "t < 0" | "s < 0" "0 \<le> t" using assms by linarith
  then show ?thesis
  proof cases
    case 1
    with assms have "0 \<le> t" by simp
    with 1 round_mag_mono [OF assms] show ?thesis by (auto simp: round_units_def Let_def)
  next
    case 2
    from assms have "- t \<le> - s" by simp
    from round_mag_mono [OF this] 2 show ?thesis by (auto simp: round_units_def Let_def)
  next
    case 3
    have "0 \<le> round_mag (- s)" "0 \<le> round_mag t"
      using 3 by (simp_all add: round_mag_nonneg)
    with 3 show ?thesis by (auto simp: round_units_def Let_def)
  qed
qed

lemma round_units_idem:
  assumes "round_units s = Fin n"
  shows "round_units n = Fin n"
proof (cases "0 \<le> s")
  case True
  with assms have n: "n = round_mag s" "\<not> overflow_threshold \<le> round_mag s"
    by (auto simp: round_units_def Let_def split: if_splits)
  moreover have "0 \<le> n" using True n(1) by (simp add: round_mag_nonneg)
  ultimately show ?thesis by (simp add: round_units_def round_mag_idem)
next
  case False
  with assms have n: "n = - round_mag (- s)" "\<not> overflow_threshold \<le> round_mag (- s)"
    by (auto simp: round_units_def Let_def split: if_splits)
  have m: "0 \<le> round_mag (- s)" using False by (simp add: round_mag_nonneg)
  show ?thesis
  proof (cases "n = 0")
    case True
    then show ?thesis by simp
  next
    case False
    with m n(1) have "\<not> 0 \<le> n" by simp
    with n show ?thesis by (simp add: round_units_def round_mag_idem)
  qed
qed

text \<open>
  Some sums as double arithmetic gives them. \<^verbatim>\<open>2.0 ** 53 + 1.0\<close> is \<^verbatim>\<open>2.0 ** 53\<close> (a tie, which
  goes to the even significand) and \<^verbatim>\<open>2.0 ** 53 + 3.0\<close> is \<^verbatim>\<open>2.0 ** 53 + 4.0\<close>;
  \<^verbatim>\<open>0.1 + 0.2\<close> is \<^verbatim>\<open>0.30000000000000004\<close> (\<^verbatim>\<open>0x1.999999999999ap-4 + 0x1.999999999999ap-3 =
  0x1.3333333333334p-2\<close>); the largest float plus half a unit in its last place is
  \<^verbatim>\<open>inf\<close>, and plus anything less it is the largest float.
\<close>

lemma float_sum_tie_to_even:
  "float_plus (Fin (float_of_int (2 ^ 53))) (float_of_int 1) = Fin (float_of_int (2 ^ 53))"
  by code_simp

lemma float_sum_tie_upwards:
  "float_plus (Fin (float_of_int (2 ^ 53 + 2))) (float_of_int 1) = Fin (float_of_int (2 ^ 53 + 4))"
  by code_simp

lemma float_sum_tenths:
  "float_plus (Fin (3602879701896397 * 2 ^ 1019)) (3602879701896397 * 2 ^ 1020)
     = Fin (5404319552844596 * 2 ^ 1020)"
  by code_simp

lemma float_sum_overflow:
  "float_plus (Fin ((2 ^ 53 - 1) * 2 ^ 2045)) (2 ^ 2044) = PInf"
  by code_simp

lemma float_sum_largest:
  "float_plus (Fin ((2 ^ 53 - 1) * 2 ^ 2045)) (2 ^ 2044 - 1) = Fin ((2 ^ 53 - 1) * 2 ^ 2045)"
  by code_simp

subsection \<open>Distances\<close>

lemma is_float_round_units: "is_float (round_units s)"
  by (cases "round_units s") (simp_all add: round_units_idem)

lemma is_float_zero [simp]: "is_float (Fin 0)"
  by simp

lemma dist_add_float_plus: "dist_add w d = float_plus d w"
  by (cases d) (simp_all add: float_plus_def add.commute)

lemma is_float_dist_add: "is_float (dist_add w d)"
  by (cases d) (simp_all add: is_float_round_units)

lemma dist_add_mono: "d \<le> e \<Longrightarrow> dist_add w d \<le> dist_add w e"
proof (cases d; cases e)
  fix a b assume "d \<le> e" "d = Fin a" "e = Fin b"
  then show ?thesis by (simp add: round_units_mono)
next
  fix a assume "d \<le> e" "d = Fin a" "e = PInf"
  then show ?thesis by (cases "round_units (w + a)") simp_all
next
  fix b assume "d \<le> e" "d = NInf" "e = Fin b"
  then show ?thesis by (cases "round_units (w + b)") simp_all
qed simp_all

lemma dist_add_nonneg:
  assumes "0 \<le> w" and "is_float d"
  shows "d \<le> dist_add w d"
proof (cases d)
  case (Fin k)
  with assms(2) have "round_units k = Fin k" by simp
  moreover have "round_units k \<le> round_units (w + k)" using assms(1) by (intro round_units_mono) simp
  ultimately show ?thesis using Fin by simp
qed simp_all

lemma is_float_path_weight: "is_float (float_path_weight p)"
proof (induction p rule: rev_induct)
  case Nil
  show ?case by (simp add: float_path_weight_def)
next
  case (snoc a p)
  have "float_path_weight (p @ [a]) = dist_add (weight a) (float_path_weight p)"
    by (simp add: float_path_weight_def dist_add_float_plus)
  then show ?case by (simp add: is_float_dist_add)
qed

subsection \<open>Looking nodes up\<close>

lemma find_node_Some: "find_node ns nm = Some i \<Longrightarrow> i < length ns \<and> name (ns ! i) = nm"
  by (induction ns arbitrary: i) (auto split: if_splits)

lemma find_node_None: "find_node ns nm = None \<longleftrightarrow> nm \<notin> set (map name ns)"
  by (induction ns) auto

lemma find_node_distinct:
  "distinct (map name ns) \<Longrightarrow> i < length ns \<Longrightarrow> find_node ns (name (ns ! i)) = Some i"
proof (induction ns arbitrary: i)
  case Nil
  then show ?case by simp
next
  case (Cons n ns)
  show ?case
  proof (cases i)
    case 0
    then show ?thesis by simp
  next
    case (Suc j)
    with Cons.prems have "j < length ns" and "name (ns ! j) \<noteq> name n"
      by (auto simp: image_iff) (metis nth_mem)
    with Cons Suc show ?thesis by simp
  qed
qed

lemma find_node_names: "map name ns' = map name ns \<Longrightarrow> find_node ns' nm = find_node ns nm"
proof (induction ns arbitrary: ns')
  case Nil
  then show ?case by simp
next
  case (Cons n ns)
  then obtain n' ms where "ns' = n' # ms" "name n' = name n" "map name ms = map name ns"
    by (auto simp: map_eq_Cons_conv)
  with Cons.IH [of ms] show ?case by simp
qed

subsection \<open>Relaxation keeps the structure\<close>

lemma nth_update_if: "xs[i := x] ! j = (if i = j \<and> i < length xs then x else xs ! j)"
  by (cases "i < length xs") (auto simp: nth_list_update list_update_beyond)

lemma relax_arc_length [simp]: "length (relax_arc s ns a) = length ns"
  by (simp add: relax_arc_def Let_def)

lemma relax_arc_name [simp]: "name (relax_arc s ns a ! j) = name (ns ! j)"
  by (simp add: relax_arc_def Let_def nth_update_if)

lemma relax_arc_arcs_out [simp]: "arcs_out (relax_arc s ns a ! j) = arcs_out (ns ! j)"
  by (simp add: relax_arc_def Let_def nth_update_if)

lemma relax_arcs_snoc: "relax_arcs s ns (as @ [a]) = relax_arc s (relax_arcs s ns as) a"
  by (simp add: relax_arcs_def)

lemma relax_arcs_Nil [simp]: "relax_arcs s ns [] = ns"
  by (simp add: relax_arcs_def)

lemma relax_arcs_length [simp]: "length (relax_arcs s ns as) = length ns"
  by (induction as rule: rev_induct) (simp_all add: relax_arcs_snoc)

lemma relax_arcs_name [simp]: "name (relax_arcs s ns as ! j) = name (ns ! j)"
  by (induction as rule: rev_induct) (simp_all add: relax_arcs_snoc)

lemma relax_arcs_arcs_out [simp]: "arcs_out (relax_arcs s ns as ! j) = arcs_out (ns ! j)"
  by (induction as rule: rev_induct) (simp_all add: relax_arcs_snoc)

lemma relax_arcs_names [simp]: "map name (relax_arcs s ns as) = map name ns"
  by (simp add: list_eq_iff_nth_eq)

subsection \<open>Relaxation and distances\<close>

lemma relax_arc_mono: "dist_of (relax_arc s ns a) j \<le> dist_of ns j"
  by (auto simp: relax_arc_def Let_def nth_update_if)

lemma relax_arcs_mono: "dist_of (relax_arcs s ns as) j \<le> dist_of ns j"
proof (induction as rule: rev_induct)
  case Nil
  show ?case by simp
next
  case (snoc a as)
  have "dist_of (relax_arcs s ns (as @ [a])) j \<le> dist_of (relax_arcs s ns as) j"
    unfolding relax_arcs_snoc by (rule relax_arc_mono)
  with snoc show ?case by (rule order_trans [rotated])
qed

lemma relax_arc_keeps:
  assumes "0 \<le> weight a" and "dist_of ns j \<le> dist_of ns (from_node a)"
    and "is_float (dist_of ns (from_node a))"
  shows "value (relax_arc s ns a ! j) = value (ns ! j)"
proof -
  have "dist_of ns (from_node a) \<le> dist_add (weight a) (dist_of ns (from_node a))"
    using assms(1,3) by (rule dist_add_nonneg)
  with assms(2) have "dist_of ns j \<le> dist_add (weight a) (dist_of ns (from_node a))"
    by (rule order_trans)
  then show ?thesis
    by (auto simp: relax_arc_def Let_def nth_update_if)
qed

lemma relax_arcs_keeps:
  assumes "\<forall>a\<in>set as. from_node a = u \<and> 0 \<le> weight a"
    and "dist_of ns j \<le> dist_of ns u"
    and "is_float (dist_of ns u)"
  shows "value (relax_arcs s ns as ! j) = value (ns ! j) \<and>
         value (relax_arcs s ns as ! u) = value (ns ! u)"
  using assms(1)
proof (induction as rule: rev_induct)
  case Nil
  show ?case by simp
next
  case (snoc a as)
  let ?m = "relax_arcs s ns as"
  from snoc have ih: "value (?m ! j) = value (ns ! j)" "value (?m ! u) = value (ns ! u)"
    and a: "from_node a = u" "0 \<le> weight a"
    by auto
  have "dist_of ?m j \<le> dist_of ?m (from_node a)" "dist_of ?m u \<le> dist_of ?m (from_node a)"
    "is_float (dist_of ?m (from_node a))"
    using ih a assms(2,3) by auto
  with a show ?case
    unfolding relax_arcs_snoc by (simp add: relax_arc_keeps ih)
qed

lemma relax_arcs_keeps_solved:
  "\<forall>a\<in>set as. from_node a = u \<and> 0 \<le> weight a \<Longrightarrow> is_float (dist_of ns u) \<Longrightarrow>
   value (relax_arcs s ns as ! u) = value (ns ! u)"
  using relax_arcs_keeps [of as u ns u s] by simp

lemma relax_arcs_relaxed:
  assumes "\<forall>a\<in>set as. from_node a = u \<and> 0 \<le> weight a \<and> to_node a < length ns"
    and "b \<in> set as"
    and fl: "is_float (dist_of ns u)"
  shows "dist_of (relax_arcs s ns as) (to_node b) \<le> dist_add (weight b) (dist_of ns u)"
  using assms(1,2)
proof (induction as rule: rev_induct)
  case Nil
  then show ?case by simp
next
  case (snoc a as)
  let ?m = "relax_arcs s ns as"
  from snoc.prems have a: "from_node a = u" "0 \<le> weight a" "to_node a < length ns"
    and as: "\<forall>a\<in>set as. from_node a = u \<and> 0 \<le> weight a \<and> to_node a < length ns"
    by auto
  have u: "dist_of ?m u = dist_of ns u"
    using relax_arcs_keeps_solved [of as u ns s] as fl by simp
  show ?case
  proof (cases "b = a")
    case True
    have "dist_of (relax_arc s ?m a) (to_node a) \<le> dist_add (weight a) (dist_of ?m (from_node a))"
      using a by (auto simp: relax_arc_def Let_def)
    with True a u show ?thesis unfolding relax_arcs_snoc by simp
  next
    case False
    with snoc.prems have "b \<in> set as" by simp
    with snoc.IH as have "dist_of ?m (to_node b) \<le> dist_add (weight b) (dist_of ns u)" by simp
    moreover have "dist_of (relax_arc s ?m a) (to_node b) \<le> dist_of ?m (to_node b)"
      by (rule relax_arc_mono)
    ultimately show ?thesis unfolding relax_arcs_snoc by (rule order_trans [rotated])
  qed
qed

lemma relax_arcs_cases:
  assumes "\<forall>a\<in>set as. from_node a = u \<and> 0 \<le> weight a"
    and fl: "is_float (dist_of ns u)"
  shows "value (relax_arcs s ns as ! j) = value (ns ! j) \<or>
         (\<exists>a\<in>set as. to_node a = j \<and>
            value (relax_arcs s ns as ! j) = (dist_add (weight a) (dist_of ns u), Some s))"
  using assms(1)
proof (induction as rule: rev_induct)
  case Nil
  show ?case by simp
next
  case (snoc a as)
  let ?m = "relax_arcs s ns as"
  from snoc.prems have a: "from_node a = u" "0 \<le> weight a"
    and as: "\<forall>a\<in>set as. from_node a = u \<and> 0 \<le> weight a"
    by auto
  have u: "dist_of ?m u = dist_of ns u"
    using relax_arcs_keeps_solved [of as u ns s] as fl by simp
  have step: "value (relax_arc s ?m a ! j) = value (?m ! j) \<or>
      (to_node a = j \<and> value (relax_arc s ?m a ! j) = (dist_add (weight a) (dist_of ?m u), Some s))"
    using a by (auto simp: relax_arc_def Let_def nth_update_if)
  from step snoc.IH [OF as] u show ?case
    unfolding relax_arcs_snoc by auto
qed

subsection \<open>The selection of the minimum\<close>

lemma dist_key_not_ValueError: "dist_key net x \<noteq> Inl ValueError"
  by (simp add: dist_key_def split: option.splits)

lemma min_rest_not_ValueError: "min_rest net best bk xs \<noteq> Inl ValueError"
  by (induction xs arbitrary: best bk) (auto split: sum.splits simp: dist_key_not_ValueError)

lemma py_min_ValueError: "py_min net xs = Inl ValueError \<longleftrightarrow> xs = []"
  by (cases xs) (auto split: sum.splits simp: dist_key_not_ValueError min_rest_not_ValueError)

lemma min_rest_least:
  "min_rest net best bk xs = Inr r \<Longrightarrow> dist_key net best = Inr bk \<Longrightarrow>
   \<exists>kr. dist_key net r = Inr kr \<and> kr \<le> bk \<and>
        (\<forall>x\<in>set xs. \<forall>k. dist_key net x = Inr k \<longrightarrow> kr \<le> k)"
proof (induction xs arbitrary: best bk)
  case Nil
  then show ?case by simp
next
  case (Cons x xs)
  from Cons.prems obtain k where k: "dist_key net x = Inr k"
    by (auto split: sum.splits)
  show ?case
  proof (cases "k < bk")
    case True
    with Cons.prems k have "min_rest net x k xs = Inr r" by simp
    from Cons.IH [OF this k] True k show ?thesis by auto
  next
    case False
    with Cons.prems k have "min_rest net best bk xs = Inr r" by simp
    from Cons.IH [OF this Cons.prems(2)] False k show ?thesis by auto
  qed
qed

lemma py_min_least:
  assumes "py_min net xs = Inr r"
  shows "\<exists>kr. dist_key net r = Inr kr \<and> (\<forall>x\<in>set xs. \<forall>k. dist_key net x = Inr k \<longrightarrow> kr \<le> k)"
proof (cases xs)
  case Nil
  with assms show ?thesis by simp
next
  case (Cons x ys)
  with assms obtain k where k: "dist_key net x = Inr k" and m: "min_rest net x k ys = Inr r"
    by (auto split: sum.splits)
  from min_rest_least [OF m k] k Cons show ?thesis by auto
qed

lemma dist_key_total: "get_node net x \<noteq> None \<Longrightarrow> \<exists>k. dist_key net x = Inr k"
  by (auto simp: dist_key_def)

lemma min_rest_total:
  "\<forall>x\<in>set xs. get_node net x \<noteq> None \<Longrightarrow> \<exists>r. min_rest net best bk xs = Inr r"
proof (induction xs arbitrary: best bk)
  case Nil
  show ?case by simp
next
  case (Cons x xs)
  then obtain k where "dist_key net x = Inr k"
    using dist_key_total [of net x] by auto
  moreover from Cons have "\<exists>r. min_rest net x k xs = Inr r" "\<exists>r. min_rest net best bk xs = Inr r"
    by auto
  ultimately show ?case by auto
qed

lemma py_min_total:
  "xs \<noteq> [] \<Longrightarrow> \<forall>x\<in>set xs. get_node net x \<noteq> None \<Longrightarrow> \<exists>r. py_min net xs = Inr r"
proof (cases xs)
  case Nil
  assume "xs \<noteq> []"
  with Nil show ?thesis by simp
next
  case (Cons x ys)
  assume "\<forall>x\<in>set xs. get_node net x \<noteq> None"
  with Cons obtain k where "dist_key net x = Inr k" and "\<forall>x\<in>set ys. get_node net x \<noteq> None"
    using dist_key_total [of net x] by auto
  with Cons min_rest_total [of ys net x k] show ?thesis by simp
qed

subsection \<open>What one call of \<^verbatim>\<open>spath_iteration\<close> does\<close>

lemma spath_iteration_Some:
  assumes "spath_iteration net unv = Inr (Some s, net', unv')"
  shows "\<exists>i. get_node net s = Some i \<and> s \<in> set unv \<and>
           net' = net\<lparr>nodes := relax_arcs s (nodes net) (arcs_out (nodes net ! i))\<rparr> \<and>
           unv' = removeAll s unv \<and>
           (\<forall>x\<in>set unv. \<forall>j. get_node net x = Some j \<longrightarrow>
              dist_of (nodes net) i \<le> dist_of (nodes net) j)"
proof -
  from assms have m: "py_min net unv = Inr s"
    by (auto simp: spath_iteration_def split: if_splits sum.splits option.splits)
  with assms obtain i where i: "get_node net s = Some i"
    and r: "net' = net\<lparr>nodes := relax_arcs s (nodes net) (arcs_out (nodes net ! i))\<rparr>"
           "unv' = removeAll s unv"
    by (auto simp: spath_iteration_def split: if_splits sum.splits option.splits)
  from py_min_least [OF m] i
  have "\<forall>x\<in>set unv. \<forall>j. get_node net x = Some j \<longrightarrow> dist_of (nodes net) i \<le> dist_of (nodes net) j"
    by (auto simp: dist_key_def)
  with i r py_min_mem [OF m] show ?thesis by blast
qed

lemma spath_iteration_None:
  "spath_iteration net unv = Inr (None, net', unv') \<Longrightarrow> unv = [] \<and> net' = net \<and> unv' = []"
  by (auto simp: spath_iteration_def py_min_ValueError split: if_splits sum.splits option.splits)

lemma spath_iteration_Nil: "spath_iteration net [] = Inr (None, net, [])"
  by (simp add: spath_iteration_def)

lemma spath_iteration_total:
  assumes "unv \<noteq> []" and "\<forall>x\<in>set unv. get_node net x \<noteq> None"
  shows "\<exists>s net' unv'. spath_iteration net unv = Inr (Some s, net', unv')"
proof -
  from py_min_total [OF assms] obtain s where m: "py_min net unv = Inr s" by blast
  with py_min_mem [OF m] assms(2) obtain i where "get_node net s = Some i" by auto
  with m assms(1) show ?thesis by (simp add: spath_iteration_def)
qed

lemma get_node_step [simp]:
  "get_node (net\<lparr>nodes := relax_arcs s (nodes net) as\<rparr>) x = get_node net x"
  using find_node_names [of "relax_arcs s (nodes net) as" "nodes net" x]
  by (simp add: get_node_def)

subsection \<open>Well-formed networks\<close>

lemma wf_distinct: "wf_network net \<Longrightarrow> distinct (map name (nodes net))"
  by (simp add: wf_network_def)

lemma wf_arcs_out:
  "wf_network net \<Longrightarrow> i < length (nodes net) \<Longrightarrow>
   arcs_out (nodes net ! i) = filter (\<lambda>a. from_node a = i) (arcs net)"
  by (simp add: wf_network_def list_all_iff)

lemma wf_arc_bounds:
  "wf_network net \<Longrightarrow> a \<in> set (arcs net) \<Longrightarrow>
   from_node a < length (nodes net) \<and> to_node a < length (nodes net)"
  by (simp add: wf_network_def list_all_iff)

lemma get_node_Some: "get_node net nm = Some i \<Longrightarrow> i < length (nodes net) \<and> name (nodes net ! i) = nm"
  by (simp add: get_node_def find_node_Some)

lemma get_node_wf:
  "wf_network net \<Longrightarrow> i < length (nodes net) \<Longrightarrow> get_node net (name (nodes net ! i)) = Some i"
  by (simp add: get_node_def find_node_distinct wf_distinct)

lemma get_node_mem: "x \<in> set (map name (nodes net)) \<Longrightarrow> get_node net x \<noteq> None"
  by (simp add: get_node_def find_node_None)

section \<open>The relaxation loop against the specification's rule\<close>

lemma relax_arc_is_spec:
  "from_node a = i \<Longrightarrow> name (ns ! i) = s \<Longrightarrow> relax_arc s ns a = relax_spec i ns a"
  by (simp add: relax_arc_def relax_spec_def candidate_def dist_add_float_plus Let_def)

lemma relax_arcs_is_spec:
  "\<forall>a\<in>set as. from_node a = i \<Longrightarrow> name (ns ! i) = s \<Longrightarrow>
   relax_arcs s ns as = foldl (relax_spec i) ns as"
proof (induction as rule: rev_induct)
  case Nil
  show ?case by simp
next
  case (snoc a as)
  then have "relax_arcs s ns as = foldl (relax_spec i) ns as" and "from_node a = i" by auto
  moreover have "name (relax_arcs s ns as ! i) = s" using snoc.prems by simp
  ultimately show ?case
    unfolding relax_arcs_snoc using relax_arc_is_spec [of a i "relax_arcs s ns as" s] by simp
qed

lemma relax_arc_candidate:
  "from_node a = i \<Longrightarrow>
   relax_arc s ns a =
     (if candidate ns i a < dist_of ns (to_node a)
      then ns[to_node a := (ns ! to_node a)\<lparr>value := (candidate ns i a, Some s)\<rparr>]
      else ns)"
  by (simp add: relax_arc_def candidate_def dist_add_float_plus Let_def)

text \<open>
  C2. A call of \<^verbatim>\<open>spath_iteration\<close> that solves a node of a well-formed network leaves
  the store that results from applying the specification's rule to the outgoing arcs of the
  solved node in turn. The candidate is the solved node's tentative distance plus the
  arc's weight (the float sum; \<open>candidate\<close> and \<open>float_plus\<close> are written from the
  arithmetic, not from the code). For an arc that leaves the solved node, the code's
  relaxation gives the neighbour the candidate and the solved node's name exactly when the
  candidate is strictly smaller than the neighbour's tentative distance at that moment; a
  candidate that is equal (or larger) changes nothing.
\<close>

theorem iteration_relaxes_as_specified:
  assumes "wf_network net" and "spath_iteration net unv = Inr (Some s, net', unv')"
  shows "\<exists>i. get_node net s = Some i \<and>
           nodes net' = foldl (relax_spec i) (nodes net) (arcs_out (nodes net ! i)) \<and>
           (\<forall>ns a. from_node a = i \<longrightarrow>
              relax_arc s ns a =
                (if candidate ns i a < dist_of ns (to_node a)
                 then ns[to_node a := (ns ! to_node a)\<lparr>value := (candidate ns i a, Some s)\<rparr>]
                 else ns))"
proof -
  from spath_iteration_Some [OF assms(2)] obtain i where i: "get_node net s = Some i"
    and n: "net' = net\<lparr>nodes := relax_arcs s (nodes net) (arcs_out (nodes net ! i))\<rparr>"
    by blast
  from get_node_Some [OF i] have b: "i < length (nodes net)" "name (nodes net ! i) = s" by auto
  from wf_arcs_out [OF assms(1) b(1)] have "\<forall>a\<in>set (arcs_out (nodes net ! i)). from_node a = i"
    by simp
  from relax_arcs_is_spec [OF this b(2)] n
  have "nodes net' = foldl (relax_spec i) (nodes net) (arcs_out (nodes net ! i))" by simp
  moreover have "\<forall>ns a. from_node a = i \<longrightarrow>
      relax_arc s ns a =
        (if candidate ns i a < dist_of ns (to_node a)
         then ns[to_node a := (ns ! to_node a)\<lparr>value := (candidate ns i a, Some s)\<rparr>]
         else ns)"
    using relax_arc_candidate by blast
  ultimately show ?thesis using i by blast
qed

text \<open>
  On the example, \<^verbatim>\<open>B\<close> is solved at distance 3: \<^verbatim>\<open>C\<close> goes from 10 to \<open>3 + 4 = 7\<close> with
  predecessor \<^verbatim>\<open>B\<close>, and \<^verbatim>\<open>D\<close>, at 7, for which the candidate is 7 too, keeps the
  predecessor \<^verbatim>\<open>A\<close>.
\<close>

theorem iteration_relaxes_as_specified_witness:
  "wf_network relax_example \<and>
   spath_iteration relax_example [''B'', ''C'', ''D'']
     = Inr (Some ''B'', relax_example_relaxed, [''C'', ''D'']) \<and>
   get_node relax_example ''B'' = Some 1 \<and>
   nodes relax_example_relaxed
     = foldl (relax_spec 1) (nodes relax_example) (arcs_out (nodes relax_example ! 1)) \<and>
   dist_of (nodes relax_example) 1 = Fin (float_of_int 3) \<and>
   map value (nodes relax_example_relaxed)
     = [(Fin 0, None), (Fin (float_of_int 3), Some ''A''),
        (Fin (float_of_int (3 + 4)), Some ''B''), (Fin (float_of_int 7), Some ''A'')]"
proof -
  have a: "wf_network relax_example" by code_simp
  have b: "spath_iteration relax_example [''B'', ''C'', ''D'']
             = Inr (Some ''B'', relax_example_relaxed, [''C'', ''D''])"
    by code_simp
  have c: "get_node relax_example ''B'' = Some 1" by code_simp
  have d: "dist_of (nodes relax_example) 1 = Fin (float_of_int 3)"
    by (simp add: relax_example_def Let_def)
  have e: "map value (nodes relax_example_relaxed)
     = [(Fin 0, None), (Fin (float_of_int 3), Some ''A''),
        (Fin (float_of_int (3 + 4)), Some ''B''), (Fin (float_of_int 7), Some ''A'')]"
    by (simp add: relax_example_relaxed_def Let_def)
  from iteration_relaxes_as_specified [OF a b] c
  have "nodes relax_example_relaxed
     = foldl (relax_spec 1) (nodes relax_example) (arcs_out (nodes relax_example ! 1))"
    by auto
  with a b c d e show ?thesis by blast
qed

section \<open>Initialisation and the driver\<close>

subsection \<open>Networks that differ in the search state only\<close>

lemma same_structure_nth:
  assumes "map name ms = map name ns" and "map arcs_out ms = map arcs_out ns"
  shows "length ms = length ns"
    and "i < length ns \<Longrightarrow> name (ms ! i) = name (ns ! i)"
    and "i < length ns \<Longrightarrow> arcs_out (ms ! i) = arcs_out (ns ! i)"
proof -
  show l: "length ms = length ns" using assms(1) by (rule map_eq_imp_length_eq)
  show "i < length ns \<Longrightarrow> name (ms ! i) = name (ns ! i)"
    using assms(1) l by (metis nth_map)
  show "i < length ns \<Longrightarrow> arcs_out (ms ! i) = arcs_out (ns ! i)"
    using assms(2) l by (metis nth_map)
qed

lemma wf_network_same_structure:
  assumes "map name (nodes m) = map name (nodes n)"
    and "map arcs_out (nodes m) = map arcs_out (nodes n)"
    and "arcs m = arcs n"
    and "wf_network n"
  shows "wf_network m"
  using assms(3,4) same_structure_nth [OF assms(1,2)] assms(1)
  by (simp add: wf_network_def list_all_iff)

lemma relax_arcs_arcs_outs [simp]: "map arcs_out (relax_arcs s ns as) = map arcs_out ns"
  by (simp add: list_eq_iff_nth_eq)

lemma wf_network_step:
  "wf_network net \<Longrightarrow> wf_network (net\<lparr>nodes := relax_arcs s (nodes net) as\<rparr>)"
  by (rule wf_network_same_structure [of _ net]) simp_all

subsection \<open>The initialiser\<close>



lemma init_nodes_length [simp]: "length (init_nodes ns i) = length ns"
  by (simp add: init_nodes_def)

lemma init_nodes_name [simp]: "j < length ns \<Longrightarrow> name (init_nodes ns i ! j) = name (ns ! j)"
  by (simp add: init_nodes_def nth_update_if)

lemma init_nodes_arcs_out [simp]:
  "j < length ns \<Longrightarrow> arcs_out (init_nodes ns i ! j) = arcs_out (ns ! j)"
  by (simp add: init_nodes_def nth_update_if)

lemma init_nodes_value:
  "j < length ns \<Longrightarrow>
   value (init_nodes ns i ! j) = (if j = i then (Fin 0, None) else (PInf, None))"
  by (simp add: init_nodes_def nth_update_if)

lemma init_nodes_names [simp]: "map name (init_nodes ns i) = map name ns"
  by (simp add: list_eq_iff_nth_eq)

lemma init_nodes_arcs_outs [simp]: "map arcs_out (init_nodes ns i) = map arcs_out ns"
  by (simp add: list_eq_iff_nth_eq)

lemma set_order_set: "set_order order \<Longrightarrow> set (order xs) = set xs"
  by (simp add: set_order_def)

lemma set_order_distinct: "set_order order \<Longrightarrow> distinct (order xs)"
  by (simp add: set_order_def)

lemma set_order_remdups: "set_order remdups"
  by (simp add: set_order_def)

lemma spath_initialise_Some:
  assumes "get_node net s = Some i"
  shows "spath_initialise order net s
           = Inr (net\<lparr>nodes := init_nodes (nodes net) i\<rparr>, order (map name (nodes net)))"
proof -
  have "find_node (map (\<lambda>n. n\<lparr>value := (PInf, None)\<rparr>) (nodes net)) s = find_node (nodes net) s"
    by (rule find_node_names) (simp add: comp_def)
  with assms show ?thesis
    by (simp add: spath_initialise_def get_node_def init_nodes_def comp_def Let_def)
qed

lemma get_node_init [simp]:
  "get_node (net\<lparr>nodes := init_nodes (nodes net) i\<rparr>) x = get_node net x"
  using find_node_names [of "init_nodes (nodes net) i" "nodes net" x]
  by (simp add: get_node_def)

lemma wf_network_init:
  "wf_network net \<Longrightarrow> wf_network (net\<lparr>nodes := init_nodes (nodes net) i\<rparr>)"
  by (rule wf_network_same_structure [of _ net]) simp_all

subsection \<open>A destination that is not in the unvisited set\<close>

lemma spath_loop_exhausts:
  "\<forall>x\<in>set unv. get_node net x \<noteq> None \<Longrightarrow> d \<notin> set unv \<Longrightarrow>
   \<exists>net' k. spath_loop net unv d k0 = Inr (None, net', k)"
proof (induction "length unv" arbitrary: unv net k0 rule: less_induct)
  case less
  show ?case
  proof (cases "unv = []")
    case True
    then show ?thesis by (subst spath_loop.simps) (simp add: spath_iteration_Nil)
  next
    case False
    from spath_iteration_total [OF False less.prems(1)]
    obtain s net' unv' where it: "spath_iteration net unv = Inr (Some s, net', unv')" by blast
    from spath_iteration_Some [OF it] obtain i where s: "s \<in> set unv"
      and n: "net' = net\<lparr>nodes := relax_arcs s (nodes net) (arcs_out (nodes net ! i))\<rparr>"
      and u: "unv' = removeAll s unv"
      by blast
    have "length unv' < length unv" using it by (rule spath_iteration_shrinks)
    moreover have "\<forall>x\<in>set unv'. get_node net' x \<noteq> None" using less.prems(1) n u by simp
    moreover have "d \<notin> set unv'" using less.prems(2) u by simp
    ultimately obtain net'' k where "spath_loop net' unv' d (Suc k0) = Inr (None, net'', k)"
      using less.hyps by blast
    moreover have "s \<noteq> d" using s less.prems(2) by auto
    ultimately show ?thesis using it by (subst spath_loop.simps) simp
  qed
qed

lemma search_without_destination:
  assumes "set_order order" and "get_node net s = Some i" and "get_node net d = None"
  shows "spath_algorithm (spec_globals order) net s d = Some (Inr (None, None))"
proof -
  let ?net0 = "net\<lparr>nodes := init_nodes (nodes net) i\<rparr>"
  let ?unv = "order (map name (nodes net))"
  have "\<forall>x\<in>set ?unv. get_node ?net0 x \<noteq> None"
    by (simp add: get_node_mem set_order_set [OF assms(1)])
  moreover have "d \<notin> set ?unv"
    using assms(3) by (simp add: get_node_def find_node_None set_order_set [OF assms(1)])
  ultimately obtain net' k where "spath_loop ?net0 ?unv d 0 = Inr (None, net', k)"
    using spath_loop_exhausts by blast
  then show ?thesis
    by (simp add: spath_algorithm_def spec_globals_def spath_initialise_Some [OF assms(2)])
qed

text \<open>
  C7 (as amended). When the source name is a node of the network and the destination name
  is not, the entry point raises nothing and returns \<^verbatim>\<open>(None, None)\<close>, in whatever order
  the unvisited set is iterated.
\<close>

theorem absent_destination_returns_none:
  assumes "set_order order" and "get_node net s = Some i" and "get_node net d = None"
  shows "spath_algorithm (spec_globals order) net s d = Some (Inr (None, None))"
  using assms by (rule search_without_destination)

theorem absent_destination_returns_none_witness:
  "set_order remdups \<and>
   get_node two_isolated_nodes ''A'' = Some 0 \<and> get_node two_isolated_nodes ''Z'' = None \<and>
   spath_algorithm (spec_globals remdups) two_isolated_nodes ''A'' ''Z'' = Some (Inr (None, None))"
proof -
  have a: "get_node two_isolated_nodes ''A'' = Some 0" by code_simp
  have b: "get_node two_isolated_nodes ''Z'' = None" by code_simp
  from absent_destination_returns_none [OF set_order_remdups a b] a b set_order_remdups
  show ?thesis by simp
qed

text \<open>
  The claim C7 as stated fails: for a destination \<^verbatim>\<open>Z\<close> that is no node, the result is a
  value, not an error.
\<close>

theorem absent_destination_no_error:
  "spath_algorithm (spec_globals remdups) two_isolated_nodes ''A'' ''Z'' = Some (Inr (None, None))"
  by code_simp

lemma negative_loop_init:
  "spath_initialise remdups negative_loop ''S''
     = Inr (negative_loop\<lparr>nodes := init_nodes (nodes negative_loop) 0\<rparr>, [''S''])"
  by code_simp

lemma negative_loop_search:
  "spath_loop (negative_loop\<lparr>nodes := init_nodes (nodes negative_loop) 0\<rparr>) [''S''] ''S'' 0
     = Inr (Some ''S'', negative_loop_solved, 1)"
  by code_simp

lemma negative_loop_solved_pred: "snd (value (nodes negative_loop_solved ! 0)) = Some ''S''"
  by (simp add: negative_loop_solved_def Let_def)

lemma negative_loop_solved_get: "get_node negative_loop_solved ''S'' = Some 0"
  by (simp add: negative_loop_solved_def Let_def get_node_def)

lemma negative_loop_chain:
  "extract_loop net cur p = Some y \<Longrightarrow> net = negative_loop_solved \<longrightarrow> cur \<noteq> 0"
proof (rule extract_loop.raw_induct
    [where P = "\<lambda>net cur p y. net = negative_loop_solved \<longrightarrow> cur \<noteq> 0"])
  fix f net cur p y
  assume ih: "\<And>net cur p y. f net cur p = Some y \<Longrightarrow> net = negative_loop_solved \<longrightarrow> cur \<noteq> 0"
    and step: "(case snd (value (nodes net ! cur)) of
                  None \<Rightarrow> Some (Inr p)
                | Some predecessor_name \<Rightarrow>
                    (case get_node net predecessor_name of
                       None \<Rightarrow> Some (Inl AttributeError)
                     | Some predecessor_node \<Rightarrow> f net predecessor_node (p @ [predecessor_name])))
               = Some y"
  show "net = negative_loop_solved \<longrightarrow> cur \<noteq> 0"
  proof (intro impI notI)
    assume n: "net = negative_loop_solved" and c: "cur = 0"
    with step have "f negative_loop_solved 0 (p @ [''S'']) = Some y"
      by (simp add: negative_loop_solved_pred negative_loop_solved_get)
    from ih [OF this] show False by simp
  qed
qed

lemma negative_loop_extract: "extract_loop negative_loop_solved 0 path = None"
  using negative_loop_chain [of negative_loop_solved 0 path]
  by (cases "extract_loop negative_loop_solved 0 path") auto

lemma negative_loop_diverges: "spath_algorithm (spec_globals remdups) negative_loop ''S'' ''S'' = None"
  by (simp add: spath_algorithm_def spec_globals_def negative_loop_init negative_loop_search
      spath_extract_path_def negative_loop_extract negative_loop_solved_get)

subsection \<open>Source and destination equal\<close>

lemma get_node_names: "map name (nodes m) = map name (nodes n) \<Longrightarrow> get_node m x = get_node n x"
  using find_node_names [of "nodes m" "nodes n" x] by (simp add: get_node_def)

lemma relax_arcs_source_fixed:
  assumes "\<forall>a\<in>set as. from_node a = i \<and> (to_node a = i \<longrightarrow> 0 \<le> weight a)"
    and "value (ns ! i) = (Fin 0, None)"
  shows "value (relax_arcs s ns as ! i) = (Fin 0, None)"
  using assms(1)
proof (induction as rule: rev_induct)
  case Nil
  show ?case using assms(2) by simp
next
  case (snoc a as)
  then have ih: "value (relax_arcs s ns as ! i) = (Fin 0, None)"
    and a: "from_node a = i" "to_node a = i \<longrightarrow> 0 \<le> weight a"
    by auto
  have "\<not> dist_add (weight a) (Fin 0) < Fin 0" if "0 \<le> weight a"
    using dist_add_nonneg [OF that, of "Fin 0"] by (simp add: not_less)
  with ih a show ?case
    unfolding relax_arcs_snoc
    by (auto simp: relax_arc_def Let_def nth_update_if)
qed

lemma first_iteration_solves_source:
  assumes ord: "set_order order" and wf: "wf_network net" and i: "get_node net s = Some i"
    and it: "spath_iteration (net\<lparr>nodes := init_nodes (nodes net) i\<rparr>)
               (order (map name (nodes net))) = Inr (Some r, net', unv')"
  shows "r = s"
proof -
  let ?net0 = "net\<lparr>nodes := init_nodes (nodes net) i\<rparr>"
  from get_node_Some [OF i] have b: "i < length (nodes net)" "name (nodes net ! i) = s" by auto
  from spath_iteration_Some [OF it] obtain j where j: "get_node ?net0 r = Some j"
    and least: "\<forall>x\<in>set (order (map name (nodes net))). \<forall>k. get_node ?net0 x = Some k \<longrightarrow>
                 dist_of (nodes ?net0) j \<le> dist_of (nodes ?net0) k"
    by blast
  from j have j': "get_node net r = Some j" by simp
  from get_node_Some [OF j'] have bj: "j < length (nodes net)" "name (nodes net ! j) = r" by auto
  have "s \<in> set (order (map name (nodes net)))"
    using b by (auto simp: set_order_set [OF ord])
  moreover have "get_node ?net0 s = Some i" using i by simp
  ultimately have "dist_of (nodes ?net0) j \<le> dist_of (nodes ?net0) i" using least by blast
  with b bj have "j = i" by (auto simp: init_nodes_value split: if_splits)
  with bj b show ?thesis by simp
qed

text \<open>
  C5 (as amended). In a well-formed network with a node \<^verbatim>\<open>s\<close> that has no arc of negative
  weight to itself, the search from \<^verbatim>\<open>s\<close> to \<^verbatim>\<open>s\<close> returns the distance 0 and the path
  \<^verbatim>\<open>[s]\<close>, in whatever order the unvisited set is iterated.
\<close>

theorem source_is_destination:
  assumes ord: "set_order order" and wf: "wf_network net" and i: "get_node net s = Some i"
    and loops: "list_all (\<lambda>a. from_node a = i \<and> to_node a = i \<longrightarrow> 0 \<le> weight a) (arcs net)"
  shows "spath_algorithm (spec_globals order) net s s = Some (Inr (Some (Fin 0), Some [s]))"
proof -
  let ?net0 = "net\<lparr>nodes := init_nodes (nodes net) i\<rparr>"
  let ?unv = "order (map name (nodes net))"
  from get_node_Some [OF i] have b: "i < length (nodes net)" "name (nodes net ! i) = s" by auto
  have "s \<in> set ?unv" using b by (auto simp: set_order_set [OF ord])
  then have "?unv \<noteq> []" by auto
  moreover have "\<forall>x\<in>set ?unv. get_node ?net0 x \<noteq> None"
    by (simp add: get_node_mem set_order_set [OF ord])
  ultimately obtain r net' unv' where it: "spath_iteration ?net0 ?unv = Inr (Some r, net', unv')"
    using spath_iteration_total by blast
  from first_iteration_solves_source [OF ord wf i it] have r: "r = s" .
  from spath_iteration_Some [OF it] r i
  have n: "net' = ?net0\<lparr>nodes := relax_arcs s (nodes ?net0) (arcs_out (nodes ?net0 ! i))\<rparr>"
    by auto
  have out: "arcs_out (nodes ?net0 ! i) = filter (\<lambda>a. from_node a = i) (arcs net)"
    using wf_arcs_out [OF wf b(1)] b(1) by simp
  have "\<forall>a\<in>set (arcs_out (nodes ?net0 ! i)). from_node a = i \<and> (to_node a = i \<longrightarrow> 0 \<le> weight a)"
    unfolding out using loops by (auto simp: list_all_iff)
  moreover have "value (nodes ?net0 ! i) = (Fin 0, None)"
    using b(1) by (simp add: init_nodes_value)
  ultimately have v: "value (nodes net' ! i) = (Fin 0, None)"
    unfolding n by (simp add: relax_arcs_source_fixed)
  have g: "get_node net' s = Some i"
    using get_node_names [of net' net s] i unfolding n by simp
  have loop: "spath_loop ?net0 ?unv s 0 = Inr (Some s, net', Suc 0)"
    using it r by (subst spath_loop.simps) simp
  have ex: "spath_extract_path net' s = Some (Inr [s])"
    using g v by (simp add: spath_extract_path_def extract_loop.simps)
  show ?thesis
    by (simp add: spath_algorithm_def spec_globals_def spath_initialise_Some [OF i] loop g ex v)
qed

theorem source_is_destination_witness:
  "set_order remdups \<and> wf_network one_arc \<and> get_node one_arc ''A'' = Some 0 \<and>
   list_all (\<lambda>a. from_node a = 0 \<and> to_node a = 0 \<longrightarrow> 0 \<le> weight a) (arcs one_arc) \<and>
   spath_algorithm (spec_globals remdups) one_arc ''A'' ''A'' = Some (Inr (Some (Fin 0), Some [''A'']))"
proof -
  have a: "wf_network one_arc" by code_simp
  have b: "get_node one_arc ''A'' = Some 0" by code_simp
  have c: "list_all (\<lambda>a. from_node a = 0 \<and> to_node a = 0 \<longrightarrow> 0 \<le> weight a) (arcs one_arc)"
    by (simp add: one_arc_def Let_def)
  from source_is_destination [OF set_order_remdups a b c] a b c set_order_remdups
  show ?thesis by simp
qed

text \<open>
  The claim C5 as stated fails on a node with an arc of weight -1 to itself: the arc lowers
  the source's own distance to -1 and makes the source its own predecessor.
\<close>

theorem source_is_destination_negative_loop:
  "spath_algorithm (spec_globals remdups) negative_loop ''S'' ''S'' \<noteq> Some (Inr (Some (Fin 0), Some [''S'']))"
  by (simp add: negative_loop_diverges)

section \<open>Correctness of the search\<close>

subsection \<open>Paths\<close>

lemma is_path_arcs: "arcs m = arcs n \<Longrightarrow> is_path m u p v = is_path n u p v"
  by (induction p arbitrary: u) auto

lemma is_path_snoc:
  "is_path net u p v \<Longrightarrow> a \<in> set (arcs net) \<Longrightarrow> from_node a = v \<Longrightarrow>
   is_path net u (p @ [a]) (to_node a)"
  by (induction p arbitrary: u) auto

lemma is_path_snocD:
  "is_path net u (p @ [a]) v \<Longrightarrow>
   is_path net u p (from_node a) \<and> a \<in> set (arcs net) \<and> to_node a = v"
  by (induction p arbitrary: u) auto

lemma path_weight_snoc [simp]: "path_weight (p @ [a]) = path_weight p + weight a"
  by (simp add: path_weight_def)

lemma path_weight_Nil [simp]: "path_weight [] = 0"
  by (simp add: path_weight_def)

lemma float_path_weight_Nil [simp]: "float_path_weight [] = Fin 0"
  by (simp add: float_path_weight_def)

lemma float_path_weight_snoc:
  "float_path_weight (p @ [a]) = dist_add (weight a) (float_path_weight p)"
  by (simp add: float_path_weight_def dist_add_float_plus)

lemma nonneg_arc: "nonneg_weights net \<Longrightarrow> a \<in> set (arcs net) \<Longrightarrow> 0 \<le> weight a"
  by (simp add: nonneg_weights_def list_all_iff)

subsection \<open>One step keeps the invariant\<close>

lemma iteration_solves_known_node:
  "spath_iteration net unv = Inr (Some s, net', unv') \<Longrightarrow> \<exists>u. get_node net s = Some u"
  using spath_iteration_Some by blast

lemma search_inv_float:
  assumes "search_inv src net unv" and "i < length (nodes net)"
  shows "is_float (dist_of (nodes net) i)"
proof (cases "dist_of (nodes net) i = PInf")
  case True
  then show ?thesis by simp
next
  case False
  with assms obtain p where "float_path_weight p = dist_of (nodes net) i"
    unfolding search_inv_def by blast
  with is_float_path_weight [of p] show ?thesis by simp
qed

lemma step_facts:
  assumes inv: "search_inv src net unv"
    and it: "spath_iteration net unv = Inr (Some s, net', unv')"
    and g: "get_node net s = Some u"
  shows "u < length (nodes net)" and "name (nodes net ! u) = s" and "s \<in> set unv"
    and "net' = net\<lparr>nodes := relax_arcs s (nodes net) (arcs_out (nodes net ! u))\<rparr>"
    and "unv' = removeAll s unv"
    and "\<forall>a\<in>set (arcs_out (nodes net ! u)).
           from_node a = u \<and> 0 \<le> weight a \<and> to_node a < length (nodes net)"
    and "\<forall>a\<in>set (arcs net). from_node a = u \<longrightarrow> a \<in> set (arcs_out (nodes net ! u))"
    and "\<forall>j<length (nodes net). name (nodes net ! j) \<in> set unv \<longrightarrow>
           dist_of (nodes net) u \<le> dist_of (nodes net) j"
    and "\<forall>j<length (nodes net). name (nodes net ! j) \<notin> set unv \<longrightarrow>
           dist_of (nodes net) j \<le> dist_of (nodes net) u"
    and "\<forall>j<length (nodes net). (name (nodes net ! j) \<notin> set unv') =
           (name (nodes net ! j) \<notin> set unv \<or> j = u)"
proof -
  from inv have wf: "wf_network net" and nn: "nonneg_weights net"
    and B: "\<forall>i<length (nodes net). \<forall>j<length (nodes net).
        name (nodes net ! i) \<notin> set unv \<longrightarrow> name (nodes net ! j) \<in> set unv \<longrightarrow>
        dist_of (nodes net) i \<le> dist_of (nodes net) j"
    by (simp_all add: search_inv_def)
  from spath_iteration_Some [OF it] g
  show s: "s \<in> set unv"
    and n: "net' = net\<lparr>nodes := relax_arcs s (nodes net) (arcs_out (nodes net ! u))\<rparr>"
    and r: "unv' = removeAll s unv"
    by simp_all
  from spath_iteration_Some [OF it] g
  have least: "\<forall>x\<in>set unv. \<forall>j. get_node net x = Some j \<longrightarrow>
                 dist_of (nodes net) u \<le> dist_of (nodes net) j"
    by simp
  from get_node_Some [OF g] show u: "u < length (nodes net)" "name (nodes net ! u) = s"
    by simp_all
  have out: "arcs_out (nodes net ! u) = filter (\<lambda>a. from_node a = u) (arcs net)"
    using wf u(1) by (rule wf_arcs_out)
  show "\<forall>a\<in>set (arcs_out (nodes net ! u)).
              from_node a = u \<and> 0 \<le> weight a \<and> to_node a < length (nodes net)"
    unfolding out using wf_arc_bounds [OF wf] nonneg_arc [OF nn] by auto
  show "\<forall>a\<in>set (arcs net). from_node a = u \<longrightarrow> a \<in> set (arcs_out (nodes net ! u))"
    unfolding out by simp
  show "\<forall>j<length (nodes net). name (nodes net ! j) \<in> set unv \<longrightarrow>
              dist_of (nodes net) u \<le> dist_of (nodes net) j"
    using least get_node_wf [OF wf] by blast
  show "\<forall>j<length (nodes net). name (nodes net ! j) \<notin> set unv \<longrightarrow>
              dist_of (nodes net) j \<le> dist_of (nodes net) u"
    using B u s by blast
  show "\<forall>j<length (nodes net). (name (nodes net ! j) \<notin> set unv') =
              (name (nodes net ! j) \<notin> set unv \<or> j = u)"
  proof (intro allI impI)
    fix j assume j: "j < length (nodes net)"
    have "name (nodes net ! j) = s \<longleftrightarrow> j = u"
      using wf_distinct [OF wf] j u by (auto simp: distinct_conv_nth)
    then show "(name (nodes net ! j) \<notin> set unv') = (name (nodes net ! j) \<notin> set unv \<or> j = u)"
      using r s by auto
  qed
qed

lemma search_inv_step:
  assumes inv: "search_inv src net unv"
    and it: "spath_iteration net unv = Inr (Some s, net', unv')"
  shows "search_inv src net' unv'"
proof -
  let ?ns = "nodes net"
  from iteration_solves_known_node [OF it] obtain u where g: "get_node net s = Some u" ..
  note f = step_facts [OF inv it g]
  note u = f(1,2) and s = f(3) and n = f(4) and r = f(5) and out = f(6) and out' = f(7)
    and least = f(8) and below = f(9) and solved = f(10)
  let ?as = "arcs_out (?ns ! u)"
  let ?ms = "relax_arcs s ?ns ?as"
  from out have out0: "\<forall>a\<in>set ?as. from_node a = u \<and> 0 \<le> weight a" by simp
  from inv have wf: "wf_network net" and nn: "nonneg_weights net"
    and src: "src < length ?ns" and sub: "set unv \<subseteq> set (map name ?ns)"
    and I0: "dist_of ?ns src \<le> Fin 0"
    and I4: "\<forall>a\<in>set (arcs net). name (?ns ! from_node a) \<notin> set unv \<longrightarrow>
               dist_of ?ns (to_node a) \<le> dist_add (weight a) (dist_of ?ns (from_node a))"
    and B: "\<forall>i<length ?ns. \<forall>j<length ?ns.
        name (?ns ! i) \<notin> set unv \<longrightarrow> name (?ns ! j) \<in> set unv \<longrightarrow> dist_of ?ns i \<le> dist_of ?ns j"
    and C: "\<forall>i<length ?ns. dist_of ?ns i \<noteq> PInf \<longrightarrow>
              (\<exists>p. is_path net src p i \<and> float_path_weight p = dist_of ?ns i)"
    by (simp_all add: search_inv_def)
  have fl: "is_float (dist_of ?ns u)" using inv u(1) by (rule search_inv_float)
  have keep: "value (?ms ! j) = value (?ns ! j)"
    if "j < length ?ns" "name (?ns ! j) \<notin> set unv'" for j
  proof -
    from that solved have "dist_of ?ns j \<le> dist_of ?ns u" using below by auto
    from relax_arcs_keeps [OF out0 this fl] show ?thesis by simp
  qed
  have keep_u: "value (?ms ! u) = value (?ns ! u)"
    using relax_arcs_keeps_solved [OF out0 fl] .
  have nodes': "nodes net' = ?ms" and arcs': "arcs net' = arcs net" using n by simp_all
  have paths: "is_path net' = is_path net"
    using is_path_arcs [OF arcs'] by (intro ext)
  have 1: "wf_network net'" unfolding n using wf by (rule wf_network_step)
  have 2: "nonneg_weights net'" using nn arcs' by (simp add: nonneg_weights_def)
  have 3: "src < length (nodes net')" using src nodes' by simp
  have 4: "set unv' \<subseteq> set (map name (nodes net'))" using sub r nodes' by auto
  have 5: "dist_of (nodes net') src \<le> Fin 0"
    unfolding nodes' using relax_arcs_mono [of s ?ns ?as src] I0 by (rule order_trans)
  have 6: "dist_of (nodes net') (to_node a)
             \<le> dist_add (weight a) (dist_of (nodes net') (from_node a))"
    if a: "a \<in> set (arcs net')" and f: "name (nodes net' ! from_node a) \<notin> set unv'" for a
  proof -
    from a arcs' have a': "a \<in> set (arcs net)" by simp
    from wf_arc_bounds [OF wf a'] have fb: "from_node a < length ?ns" by simp
    from f nodes' have f': "name (?ns ! from_node a) \<notin> set unv'" by simp
    have kf: "dist_of ?ms (from_node a) = dist_of ?ns (from_node a)"
      using keep [OF fb f'] by simp
    show ?thesis
    proof (cases "from_node a = u")
      case True
      with out' a' have "a \<in> set ?as" by simp
      from relax_arcs_relaxed [OF out this fl] kf True show ?thesis unfolding nodes' by simp
    next
      case False
      with solved fb f' have "name (?ns ! from_node a) \<notin> set unv" by simp
      with I4 a' have "dist_of ?ns (to_node a) \<le> dist_add (weight a) (dist_of ?ns (from_node a))"
        by simp
      then have "dist_of ?ms (to_node a) \<le> dist_add (weight a) (dist_of ?ns (from_node a))"
        using relax_arcs_mono [of s ?ns ?as "to_node a"] by (rule order_trans [rotated])
      with kf show ?thesis unfolding nodes' by simp
    qed
  qed
  have 7: "dist_of (nodes net') i \<le> dist_of (nodes net') j"
    if i: "i < length (nodes net')" and j: "j < length (nodes net')"
      and si: "name (nodes net' ! i) \<notin> set unv'" and uj: "name (nodes net' ! j) \<in> set unv'" for i j
  proof -
    from i j nodes' have ib: "i < length ?ns" and jb: "j < length ?ns" by simp_all
    from si uj nodes' have si': "name (?ns ! i) \<notin> set unv'" and uj': "name (?ns ! j) \<in> set unv'"
      by simp_all
    from uj' solved jb have uj0: "name (?ns ! j) \<in> set unv" and ju: "j \<noteq> u" by auto
    have ki: "dist_of ?ms i = dist_of ?ns i" using keep [OF ib si'] by simp
    have iu: "dist_of ?ns i \<le> dist_of ?ns u"
      using si' solved ib below by auto
    have ij: "dist_of ?ns i \<le> dist_of ?ns j"
      using iu least jb uj0 by (meson order_trans)
    from relax_arcs_cases [OF out0 fl, where s = s and j = j]
    have "dist_of ?ns i \<le> dist_of ?ms j"
    proof
      assume "value (?ms ! j) = value (?ns ! j)"
      with ij show ?thesis by simp
    next
      assume "\<exists>a\<in>set ?as. to_node a = j \<and>
                value (?ms ! j) = (dist_add (weight a) (dist_of ?ns u), Some s)"
      then obtain a where a: "a \<in> set ?as"
        and v: "dist_of ?ms j = dist_add (weight a) (dist_of ?ns u)"
        by auto
      from a out0 have "0 \<le> weight a" by simp
      from dist_add_nonneg [OF this fl] v have "dist_of ?ns u \<le> dist_of ?ms j" by simp
      with iu show ?thesis by (rule order_trans)
    qed
    with ki show ?thesis unfolding nodes' by simp
  qed
  have 8: "\<exists>p. is_path net' src p i \<and> float_path_weight p = dist_of (nodes net') i"
    if i: "i < length (nodes net')" and d: "dist_of (nodes net') i \<noteq> PInf" for i
  proof -
    from i nodes' have ib: "i < length ?ns" by simp
    from d nodes' have d': "dist_of ?ms i \<noteq> PInf" by simp
    from relax_arcs_cases [OF out0 fl, where s = s and j = i]
    have "\<exists>p. is_path net src p i \<and> float_path_weight p = dist_of ?ms i"
    proof
      assume "value (?ms ! i) = value (?ns ! i)"
      with d' C ib show ?thesis by simp
    next
      assume "\<exists>a\<in>set ?as. to_node a = i \<and>
                value (?ms ! i) = (dist_add (weight a) (dist_of ?ns u), Some s)"
      then obtain a where a: "a \<in> set ?as" "to_node a = i"
        and v: "dist_of ?ms i = dist_add (weight a) (dist_of ?ns u)"
        by auto
      from v d' have "dist_of ?ns u \<noteq> PInf" by auto
      with C u(1) obtain p where p: "is_path net src p u" "float_path_weight p = dist_of ?ns u"
        by blast
      have "a \<in> set (filter (\<lambda>a. from_node a = u) (arcs net))"
        using a(1) wf_arcs_out [OF wf u(1)] by simp
      then have "a \<in> set (arcs net)" "from_node a = u" by simp_all
      from is_path_snoc [OF p(1) this] a(2) p(2) v
      have "is_path net src (p @ [a]) i \<and> float_path_weight (p @ [a]) = dist_of ?ms i"
        by (simp add: float_path_weight_snoc)
      then show ?thesis by blast
    qed
    with paths nodes' show ?thesis by simp
  qed
  show ?thesis
    unfolding search_inv_def
  proof (intro conjI ballI allI impI)
    show "wf_network net'" by (rule 1)
    show "nonneg_weights net'" by (rule 2)
    show "src < length (nodes net')" by (rule 3)
    show "set unv' \<subseteq> set (map name (nodes net'))" by (rule 4)
    show "dist_of (nodes net') src \<le> Fin 0" by (rule 5)
  next
    fix a assume "a \<in> set (arcs net')" "name (nodes net' ! from_node a) \<notin> set unv'"
    then show "dist_of (nodes net') (to_node a)
             \<le> dist_add (weight a) (dist_of (nodes net') (from_node a))" by (rule 6)
  next
    fix i j assume "i < length (nodes net')" "j < length (nodes net')"
      "name (nodes net' ! i) \<notin> set unv'" "name (nodes net' ! j) \<in> set unv'"
    then show "dist_of (nodes net') i \<le> dist_of (nodes net') j" by (rule 7)
  next
    fix i assume "i < length (nodes net')" "dist_of (nodes net') i \<noteq> PInf"
    then show "\<exists>p. is_path net' src p i \<and> float_path_weight p = dist_of (nodes net') i"
      by (rule 8)
  qed
qed

subsection \<open>The invariant holds after initialisation\<close>

lemma search_inv_init:
  assumes ord: "set_order order"
    and wf: "wf_network net" and nn: "nonneg_weights net" and g: "get_node net s = Some src"
  shows "search_inv src (net\<lparr>nodes := init_nodes (nodes net) src\<rparr>) (order (map name (nodes net)))"
proof -
  let ?net0 = "net\<lparr>nodes := init_nodes (nodes net) src\<rparr>"
  from get_node_Some [OF g] have src: "src < length (nodes net)" by simp
  have "is_path ?net0 src [] src \<and> float_path_weight [] = Fin 0" by simp
  then have p: "\<exists>p. is_path ?net0 src p src \<and> float_path_weight p = Fin 0" by blast
  note so = set_order_set [OF ord]
  show ?thesis
    unfolding search_inv_def
  proof (intro conjI ballI allI impI)
    show "wf_network ?net0" using wf by (rule wf_network_init)
    show "nonneg_weights ?net0" using nn by (simp add: nonneg_weights_def)
    show "src < length (nodes ?net0)" using src by simp
    show "set (order (map name (nodes net))) \<subseteq> set (map name (nodes ?net0))"
      by (simp add: so)
    show "dist_of (nodes ?net0) src \<le> Fin 0" using src by (simp add: init_nodes_value)
  next
    fix a assume "a \<in> set (arcs ?net0)"
      and "name (nodes ?net0 ! from_node a) \<notin> set (order (map name (nodes net)))"
    then have "from_node a < length (nodes net)"
      "name (nodes net ! from_node a) \<notin> set (map name (nodes net))"
      using wf_arc_bounds [OF wf, of a] by (simp_all add: so)
    then have False by simp
    then show "dist_of (nodes ?net0) (to_node a)
        \<le> dist_add (weight a) (dist_of (nodes ?net0) (from_node a))" ..
  next
    fix i j assume "i < length (nodes ?net0)"
      and "name (nodes ?net0 ! i) \<notin> set (order (map name (nodes net)))"
    then have False by (simp add: so)
    then show "dist_of (nodes ?net0) i \<le> dist_of (nodes ?net0) j" ..
  next
    fix i assume "i < length (nodes ?net0)" and "dist_of (nodes ?net0) i \<noteq> PInf"
    then have "i = src" "dist_of (nodes ?net0) i = Fin 0"
      by (auto simp: init_nodes_value split: if_splits)
    with p show "\<exists>p. is_path ?net0 src p i \<and> float_path_weight p = dist_of (nodes ?net0) i"
      by simp
  qed
qed

lemma pred_inv_init:
  "set_order order \<Longrightarrow>
   pred_inv (net\<lparr>nodes := init_nodes (nodes net) src\<rparr>) (order (map name (nodes net))) rank 0"
  by (auto simp: pred_inv_def init_nodes_value set_order_set split: if_splits)

subsection \<open>One step keeps the solved nodes and the predecessors\<close>

lemma step_keeps_solved:
  assumes inv: "search_inv src net unv"
    and it: "spath_iteration net unv = Inr (Some s, net', unv')"
    and j: "j < length (nodes net)" "name (nodes net ! j) \<notin> set unv'"
  shows "value (nodes net' ! j) = value (nodes net ! j)"
proof -
  from iteration_solves_known_node [OF it] obtain u where g: "get_node net s = Some u" ..
  note f = step_facts [OF inv it g]
  from f(6) have out0: "\<forall>a\<in>set (arcs_out (nodes net ! u)). from_node a = u \<and> 0 \<le> weight a"
    by simp
  from j f(10) f(9) have "dist_of (nodes net) j \<le> dist_of (nodes net) u" by auto
  moreover have "is_float (dist_of (nodes net) u)" using inv f(1) by (rule search_inv_float)
  ultimately show ?thesis using relax_arcs_keeps [OF out0] f(4) by simp
qed

lemma step_structure:
  assumes "spath_iteration net unv = Inr (r, net', unv')"
  shows "map name (nodes net') = map name (nodes net)" and "arcs net' = arcs net"
    and "length (nodes net') = length (nodes net)"
    and "dist_of (nodes net') j \<le> dist_of (nodes net) j"
proof -
  have "map name (nodes net') = map name (nodes net) \<and> arcs net' = arcs net \<and>
        length (nodes net') = length (nodes net) \<and> dist_of (nodes net') j \<le> dist_of (nodes net) j"
  proof (cases r)
    case None
    with assms spath_iteration_None have "net' = net" by blast
    then show ?thesis by simp
  next
    case (Some s)
    with assms spath_iteration_Some obtain i where
      "net' = net\<lparr>nodes := relax_arcs s (nodes net) (arcs_out (nodes net ! i))\<rparr>" by blast
    then show ?thesis by (simp add: relax_arcs_mono)
  qed
  then show "map name (nodes net') = map name (nodes net)" and "arcs net' = arcs net"
    and "length (nodes net') = length (nodes net)"
    and "dist_of (nodes net') j \<le> dist_of (nodes net) j"
    by simp_all
qed

lemma spath_initialise_Inr:
  assumes "spath_initialise order net s = Inr (net0, unv)"
  shows "\<exists>i. get_node net s = Some i \<and> net0 = net\<lparr>nodes := init_nodes (nodes net) i\<rparr> \<and>
           unv = order (map name (nodes net))"
proof (cases "get_node net s")
  case None
  have "find_node (map (\<lambda>n. n\<lparr>value := (PInf, None)\<rparr>) (nodes net)) s = find_node (nodes net) s"
    by (rule find_node_names) (simp add: comp_def)
  with None assms show ?thesis by (simp add: spath_initialise_def get_node_def Let_def)
next
  case (Some i)
  with assms spath_initialise_Some [OF Some] show ?thesis by simp
qed

lemma run_steps_inv:
  "search_inv src net0 unv0 \<Longrightarrow> run_steps k net0 unv0 = Inr (net1, unv1) \<Longrightarrow>
   search_inv src net1 unv1 \<and> length (nodes net1) = length (nodes net0)"
proof (induction k arbitrary: net0 unv0)
  case 0
  then show ?case by simp
next
  case (Suc k)
  from Suc.prems(2) obtain r n' u' where it: "spath_iteration net0 unv0 = Inr (r, n', u')"
    and rest: "run_steps k n' u' = Inr (net1, unv1)"
    by (auto split: sum.splits)
  have "search_inv src n' u'"
  proof (cases r)
    case None
    with it spath_iteration_None [of net0 unv0 n' u'] Suc.prems(1) show ?thesis by simp
  next
    case (Some s)
    with it Suc.prems(1) show ?thesis using search_inv_step by blast
  qed
  from Suc.IH [OF this rest] step_structure(3) [OF it] show ?case by simp
qed

text \<open>
  C4. In a search over a well-formed network with non-negative arc weights, started by
  the initialiser and continued by any number of calls of \<^verbatim>\<open>spath_iteration\<close>, a further
  call raises no node's tentative distance, and it leaves the tentative distance and the
  predecessor of every node that is out of the unvisited set when the call returns (the
  node the call solves included) as they were. This holds in whatever order the unvisited
  set is iterated, and with the distances added as floats.
\<close>

theorem solved_nodes_are_final:
  assumes ord: "set_order order" and wf: "wf_network net" and nn: "nonneg_weights net"
    and init: "spath_initialise order net s = Inr (net0, unv0)"
    and run: "run_steps k net0 unv0 = Inr (net1, unv1)"
    and it: "spath_iteration net1 unv1 = Inr (r, net2, unv2)"
    and j: "j < length (nodes net)"
  shows "dist_of (nodes net2) j \<le> dist_of (nodes net1) j \<and>
         (name (nodes net1 ! j) \<notin> set unv2 \<longrightarrow> value (nodes net2 ! j) = value (nodes net1 ! j))"
proof -
  from spath_initialise_Inr [OF init] obtain src where g: "get_node net s = Some src"
    and n0: "net0 = net\<lparr>nodes := init_nodes (nodes net) src\<rparr>"
    and u0: "unv0 = order (map name (nodes net))"
    by blast
  have "search_inv src net0 unv0" unfolding n0 u0 using ord wf nn g by (rule search_inv_init)
  from run_steps_inv [OF this run] n0 have inv: "search_inv src net1 unv1"
    and len: "length (nodes net1) = length (nodes net)"
    by simp_all
  have mono: "dist_of (nodes net2) j \<le> dist_of (nodes net1) j"
    using it by (rule step_structure(4))
  have "value (nodes net2 ! j) = value (nodes net1 ! j)" if "name (nodes net1 ! j) \<notin> set unv2"
  proof (cases r)
    case None
    with it spath_iteration_None [of net1 unv1 net2 unv2] show ?thesis by simp
  next
    case (Some x)
    with it have "spath_iteration net1 unv1 = Inr (Some x, net2, unv2)" by simp
    from step_keeps_solved [OF inv this] j len that show ?thesis by simp
  qed
  with mono show ?thesis by simp
qed

theorem solved_nodes_are_final_witness:
  "set_order remdups \<and> wf_network one_arc \<and> nonneg_weights one_arc \<and>
   spath_initialise remdups one_arc ''A'' = Inr (one_arc, [''A'', ''B'']) \<and>
   run_steps 0 one_arc [''A'', ''B''] = Inr (one_arc, [''A'', ''B'']) \<and>
   spath_iteration one_arc [''A'', ''B''] = Inr (Some ''A'', one_arc_relaxed, [''B'']) \<and>
   (0::nat) < length (nodes one_arc) \<and>
   dist_of (nodes one_arc_relaxed) 0 \<le> dist_of (nodes one_arc) 0 \<and>
   value (nodes one_arc_relaxed ! 0) = value (nodes one_arc ! 0)"
proof -
  have a: "wf_network one_arc" by code_simp
  have b: "nonneg_weights one_arc" by code_simp
  have c: "spath_initialise remdups one_arc ''A'' = Inr (one_arc, [''A'', ''B''])" by code_simp
  have d: "run_steps 0 one_arc [''A'', ''B''] = Inr (one_arc, [''A'', ''B''])" by simp
  have e: "spath_iteration one_arc [''A'', ''B''] = Inr (Some ''A'', one_arc_relaxed, [''B''])"
    by code_simp
  have f: "(0::nat) < length (nodes one_arc)" by code_simp
  have g: "name (nodes one_arc ! 0) \<notin> set [''B'']" by code_simp
  from solved_nodes_are_final [OF set_order_remdups a b c d e f] a b c d e f g set_order_remdups
  show ?thesis by simp
qed

lemma pred_inv_step:
  assumes inv: "search_inv src net unv" and pi: "pred_inv net unv rank b"
    and it: "spath_iteration net unv = Inr (Some s, net', unv')"
  shows "\<exists>rank' b'. pred_inv net' unv' rank' b'"
proof -
  let ?ns = "nodes net"
  from iteration_solves_known_node [OF it] obtain u where g: "get_node net s = Some u" ..
  note f = step_facts [OF inv it g]
  from f(6) have out0: "\<forall>a\<in>set (arcs_out (?ns ! u)). from_node a = u \<and> 0 \<le> weight a" by simp
  from f(4) have nodes': "nodes net' = relax_arcs s ?ns (arcs_out (?ns ! u))" by simp
  have len: "length (nodes net') = length ?ns" and nm: "\<And>i. name (nodes net' ! i) = name (?ns ! i)"
    unfolding nodes' by simp_all
  from pi have P: "\<And>i nm. i < length ?ns \<Longrightarrow> snd (value (?ns ! i)) = Some nm \<Longrightarrow>
        \<exists>x<length ?ns. name (?ns ! x) = nm \<and> nm \<notin> set unv \<and>
           (name (?ns ! i) \<notin> set unv \<longrightarrow> rank x < rank i)"
    and R: "\<And>x. x < length ?ns \<Longrightarrow> name (?ns ! x) \<notin> set unv \<Longrightarrow> rank x < b"
    by (simp_all add: pred_inv_def)
  define rank' where "rank' = rank(u := b)"
  have sub: "\<And>x. x \<notin> set unv \<Longrightarrow> x \<notin> set unv'" using f(5) by simp
  have 1: "\<exists>x<length (nodes net'). name (nodes net' ! x) = nm \<and> nm \<notin> set unv' \<and>
             (name (nodes net' ! i) \<notin> set unv' \<longrightarrow> rank' x < rank' i)"
    if i: "i < length (nodes net')" and p: "snd (value (nodes net' ! i)) = Some nm" for i nm
  proof (cases "name (?ns ! i) \<in> set unv'")
    case True
    have fl: "is_float (dist_of ?ns u)" using inv f(1) by (rule search_inv_float)
    from relax_arcs_cases [OF out0 fl, where s = s and j = i]
    have "\<exists>x<length ?ns. name (?ns ! x) = nm \<and> nm \<notin> set unv'"
    proof
      assume "value (relax_arcs s ?ns (arcs_out (?ns ! u)) ! i) = value (?ns ! i)"
      with p nodes' have "snd (value (?ns ! i)) = Some nm" by simp
      from P [OF _ this] i len sub show ?thesis by auto
    next
      assume "\<exists>a\<in>set (arcs_out (?ns ! u)). to_node a = i \<and>
         value (relax_arcs s ?ns (arcs_out (?ns ! u)) ! i)
           = (dist_add (weight a) (dist_of ?ns u), Some s)"
      with p nodes' have "nm = s" by auto
      with f(1,2,5) show ?thesis by auto
    qed
    with True len nm show ?thesis by auto
  next
    case False
    with i len have ib: "i < length ?ns" and sv: "name (?ns ! i) \<notin> set unv'" by simp_all
    from step_keeps_solved [OF inv it ib sv] p have "snd (value (?ns ! i)) = Some nm" by simp
    from P [OF ib this] obtain x where x: "x < length ?ns" "name (?ns ! x) = nm" "nm \<notin> set unv"
      and rk: "name (?ns ! i) \<notin> set unv \<longrightarrow> rank x < rank i"
      by blast
    from x f(2,3) have xu: "x \<noteq> u" by auto
    from R [OF x(1)] x have xb: "rank x < b" by simp
    have "rank' x < rank' i"
    proof (cases "i = u")
      case True
      with xu xb show ?thesis by (simp add: rank'_def)
    next
      case False
      with f(10) ib sv have "name (?ns ! i) \<notin> set unv" by simp
      with rk xu False show ?thesis by (simp add: rank'_def)
    qed
    with x sub len nm show ?thesis by auto
  qed
  have 2: "rank' x < Suc b" if "x < length (nodes net')" "name (nodes net' ! x) \<notin> set unv'" for x
  proof (cases "x = u")
    case True
    then show ?thesis by (simp add: rank'_def)
  next
    case False
    with that f(10) len nm have "x < length ?ns" "name (?ns ! x) \<notin> set unv" by simp_all
    from R [OF this] False show ?thesis by (simp add: rank'_def)
  qed
  have "pred_inv net' unv' rank' (Suc b)"
    unfolding pred_inv_def using 1 2 by blast
  then show ?thesis by blast
qed

subsection \<open>Path extraction returns for a solved destination\<close>

lemma extract_loop_returns:
  assumes wf: "wf_network net" and pi: "pred_inv net unv rank b"
  shows "i < length (nodes net) \<Longrightarrow> name (nodes net ! i) \<notin> set unv \<Longrightarrow>
         \<exists>p. extract_loop net i acc = Some (Inr p)"
proof (induction "rank i" arbitrary: i acc rule: less_induct)
  case less
  show ?case
  proof (cases "snd (value (nodes net ! i))")
    case None
    then show ?thesis by (subst extract_loop.simps) simp
  next
    case (Some nm)
    with pi less.prems obtain x where x: "x < length (nodes net)" "name (nodes net ! x) = nm"
      "nm \<notin> set unv" "rank x < rank i"
      unfolding pred_inv_def by blast
    from get_node_wf [OF wf x(1)] x(2) have g: "get_node net nm = Some x" by simp
    from less.hyps [OF x(4) x(1)] x(2,3)
    obtain p where "extract_loop net x (acc @ [nm]) = Some (Inr p)" by blast
    with Some g show ?thesis by (subst extract_loop.simps) simp
  qed
qed

subsection \<open>The driver's loop reaches the destination\<close>

lemma spath_loop_finds_destination:
  "search_inv src net unv \<Longrightarrow> pred_inv net unv rank b \<Longrightarrow> d \<in> set unv \<Longrightarrow>
   \<exists>net' unv' rank' b' k. spath_loop net unv d k0 = Inr (Some d, net', k) \<and>
      search_inv src net' unv' \<and> pred_inv net' unv' rank' b' \<and> d \<notin> set unv' \<and>
      map name (nodes net') = map name (nodes net) \<and> arcs net' = arcs net"
proof (induction "length unv" arbitrary: unv net rank b k0 rule: less_induct)
  case less
  from less.prems(3) have ne: "unv \<noteq> []" by auto
  from less.prems(1) have "set unv \<subseteq> set (map name (nodes net))" by (simp add: search_inv_def)
  then have "\<forall>x\<in>set unv. get_node net x \<noteq> None" using get_node_mem by blast
  from spath_iteration_total [OF ne this]
  obtain s net1 unv1 where it: "spath_iteration net unv = Inr (Some s, net1, unv1)" by blast
  have inv1: "search_inv src net1 unv1" using less.prems(1) it by (rule search_inv_step)
  from pred_inv_step [OF less.prems(1,2) it]
  obtain rank1 b1 where pi1: "pred_inv net1 unv1 rank1 b1" by blast
  have st: "map name (nodes net1) = map name (nodes net)" "arcs net1 = arcs net"
    using step_structure [OF it] by simp_all
  from spath_iteration_Some [OF it] have u1: "unv1 = removeAll s unv" by blast
  show ?case
  proof (cases "s = d")
    case True
    with it have "spath_loop net unv d k0 = Inr (Some d, net1, Suc k0)"
      by (subst spath_loop.simps) simp
    moreover have "d \<notin> set unv1" using u1 True by simp
    ultimately show ?thesis using inv1 pi1 st by blast
  next
    case False
    have "length unv1 < length unv" using it by (rule spath_iteration_shrinks)
    moreover have "d \<in> set unv1" using u1 False less.prems(3) by simp
    ultimately obtain net' unv' rank' b' k where
      r: "spath_loop net1 unv1 d (Suc k0) = Inr (Some d, net', k)"
        "search_inv src net' unv'" "pred_inv net' unv' rank' b'" "d \<notin> set unv'"
        "map name (nodes net') = map name (nodes net1)" "arcs net' = arcs net1"
      using less.hyps [OF _ inv1 pi1] by blast
    from it False r(1) have "spath_loop net unv d k0 = Inr (Some d, net', k)"
      by (subst spath_loop.simps) simp
    with r st show ?thesis by (metis (no_types))
  qed
qed

subsection \<open>Solved distances are minimal\<close>

lemma is_path_bound:
  "wf_network net \<Longrightarrow> u < length (nodes net) \<Longrightarrow> is_path net u p v \<Longrightarrow> v < length (nodes net)"
  by (induction p arbitrary: u) (auto dest: wf_arc_bounds)

lemma path_lower_bound:
  assumes inv: "search_inv src net unv"
  shows "is_path net src p v \<Longrightarrow>
         (\<exists>y<length (nodes net). name (nodes net ! y) \<in> set unv \<and>
             dist_of (nodes net) y \<le> float_path_weight p) \<or>
         dist_of (nodes net) v \<le> float_path_weight p"
proof (induction p arbitrary: v rule: rev_induct)
  case Nil
  with inv show ?case by (simp add: search_inv_def)
next
  case (snoc a q)
  from inv have wf: "wf_network net" and nn: "nonneg_weights net" and src: "src < length (nodes net)"
    and I4: "\<forall>a\<in>set (arcs net). name (nodes net ! from_node a) \<notin> set unv \<longrightarrow>
               dist_of (nodes net) (to_node a)
                 \<le> dist_add (weight a) (dist_of (nodes net) (from_node a))"
    by (simp_all add: search_inv_def)
  from is_path_snocD [OF snoc.prems] have q: "is_path net src q (from_node a)"
    and a: "a \<in> set (arcs net)" and v: "to_node a = v"
    by simp_all
  from nonneg_arc [OF nn a] have w: "0 \<le> weight a" .
  have le: "float_path_weight q \<le> float_path_weight (q @ [a])"
    unfolding float_path_weight_snoc using w is_float_path_weight by (rule dist_add_nonneg)
  from snoc.IH [OF q] show ?case
  proof
    assume "\<exists>y<length (nodes net). name (nodes net ! y) \<in> set unv \<and>
              dist_of (nodes net) y \<le> float_path_weight q"
    then obtain y where y: "y < length (nodes net)" "name (nodes net ! y) \<in> set unv"
      and "dist_of (nodes net) y \<le> float_path_weight q" by blast
    from this(3) le have "dist_of (nodes net) y \<le> float_path_weight (q @ [a])"
      by (rule order_trans)
    with y show ?thesis by blast
  next
    assume d: "dist_of (nodes net) (from_node a) \<le> float_path_weight q"
    show ?thesis
    proof (cases "name (nodes net ! from_node a) \<in> set unv")
      case True
      from d le have "dist_of (nodes net) (from_node a) \<le> float_path_weight (q @ [a])"
        by (rule order_trans)
      with True wf_arc_bounds [OF wf a] show ?thesis by blast
    next
      case False
      with I4 a have "dist_of (nodes net) v
          \<le> dist_add (weight a) (dist_of (nodes net) (from_node a))"
        using v by blast
      also have "\<dots> \<le> dist_add (weight a) (float_path_weight q)"
        using d by (rule dist_add_mono)
      also have "\<dots> = float_path_weight (q @ [a])" by (simp add: float_path_weight_snoc)
      finally show ?thesis by simp
    qed
  qed
qed

lemma solved_distance_minimal:
  assumes inv: "search_inv src net unv"
    and v: "v < length (nodes net)" "name (nodes net ! v) \<notin> set unv"
  shows "min_float_path_weight net src v (dist_of (nodes net) v)"
proof -
  from inv have B: "\<forall>i<length (nodes net). \<forall>j<length (nodes net).
        name (nodes net ! i) \<notin> set unv \<longrightarrow> name (nodes net ! j) \<in> set unv \<longrightarrow>
        dist_of (nodes net) i \<le> dist_of (nodes net) j"
    and C: "\<forall>i<length (nodes net). dist_of (nodes net) i \<noteq> PInf \<longrightarrow>
              (\<exists>p. is_path net src p i \<and> float_path_weight p = dist_of (nodes net) i)"
    by (simp_all add: search_inv_def)
  have low: "dist_of (nodes net) v \<le> float_path_weight p" if "is_path net src p v" for p
    using path_lower_bound [OF inv that]
  proof
    assume "\<exists>y<length (nodes net). name (nodes net ! y) \<in> set unv \<and>
              dist_of (nodes net) y \<le> float_path_weight p"
    then obtain y where y: "y < length (nodes net)" "name (nodes net ! y) \<in> set unv"
      "dist_of (nodes net) y \<le> float_path_weight p" by blast
    with B v have "dist_of (nodes net) v \<le> dist_of (nodes net) y" by blast
    with y(3) show ?thesis by (rule order_trans [rotated])
  qed
  have "dist_of (nodes net) v = PInf \<or>
        (\<exists>p. is_path net src p v \<and> dist_of (nodes net) v = float_path_weight p)"
  proof (cases "dist_of (nodes net) v = PInf")
    case False
    with C v(1) obtain p where "is_path net src p v" "float_path_weight p = dist_of (nodes net) v"
      by blast
    then show ?thesis by auto
  next
    case True
    then show ?thesis by simp
  qed
  with low show ?thesis unfolding min_float_path_weight_def by blast
qed

lemma min_float_path_weight_arcs:
  "arcs m = arcs n \<Longrightarrow> min_float_path_weight m u v D = min_float_path_weight n u v D"
  by (simp add: min_float_path_weight_def is_path_arcs [of m n])

subsection \<open>The entry point on a network that holds source and destination\<close>

lemma search_returns_minimum:
  assumes ord: "set_order order" and wf: "wf_network net" and nn: "nonneg_weights net"
    and gs: "get_node net s = Some i" and gd: "get_node net d = Some j"
  shows "\<exists>D p. spath_algorithm (spec_globals order) net s d = Some (Inr (Some D, Some p)) \<and>
           min_float_path_weight net i j D"
proof -
  let ?net0 = "net\<lparr>nodes := init_nodes (nodes net) i\<rparr>"
  let ?unv = "order (map name (nodes net))"
  have inv0: "search_inv i ?net0 ?unv" using ord wf nn gs by (rule search_inv_init)
  have pi0: "pred_inv ?net0 ?unv (\<lambda>_. 0) 0" using ord by (rule pred_inv_init)
  from get_node_Some [OF gd] have j: "j < length (nodes net)" "name (nodes net ! j) = d" by auto
  then have "d \<in> set ?unv" by (auto simp: set_order_set [OF ord])
  from spath_loop_finds_destination [OF inv0 pi0 this, of 0]
  obtain net' unv' rank' b' k where loop: "spath_loop ?net0 ?unv d 0 = Inr (Some d, net', k)"
    and inv: "search_inv i net' unv'" and pi: "pred_inv net' unv' rank' b'"
    and dn: "d \<notin> set unv'"
    and nm: "map name (nodes net') = map name (nodes ?net0)" and ar: "arcs net' = arcs ?net0"
    by blast
  from nm have nm': "map name (nodes net') = map name (nodes net)" by simp
  have g': "get_node net' d = Some j" using get_node_names [OF nm', of d] gd by simp
  from get_node_Some [OF g'] have j': "j < length (nodes net')" "name (nodes net' ! j) = d"
    by auto
  from inv have wf': "wf_network net'" by (simp add: search_inv_def)
  from extract_loop_returns [OF wf' pi j'(1)] j'(2) dn
  obtain p where ex: "extract_loop net' j [] = Some (Inr p)" by blast
  have path: "spath_extract_path net' d = Some (Inr (rev p @ [d]))"
    using g' ex by (simp add: spath_extract_path_def)
  have "min_float_path_weight net' i j (dist_of (nodes net') j)"
    using inv j'(1) j'(2) dn by (intro solved_distance_minimal) simp_all
  moreover have "arcs net' = arcs net" using ar by simp
  ultimately have m: "min_float_path_weight net i j (dist_of (nodes net') j)"
    using min_float_path_weight_arcs by blast
  have "spath_algorithm (spec_globals order) net s d
          = Some (Inr (Some (dist_of (nodes net') j), Some (rev p @ [d])))"
    by (simp add: spath_algorithm_def spec_globals_def spath_initialise_Some [OF gs] loop g' path)
  with m show ?thesis by blast
qed



subsection \<open>The distance returned against the exact total weights\<close>




lemma float_of_int_inject [simp]: "float_of_int a = float_of_int b \<longleftrightarrow> a = b"
  by (simp add: float_of_int_def)



section \<open>Termination of the entry point\<close>

lemma spath_loop_bound:
  "\<forall>x\<in>set unv. get_node net x \<noteq> None \<Longrightarrow>
   \<exists>r net' k. spath_loop net unv d k0 = Inr (r, net', k) \<and> k \<le> k0 + length unv"
proof (induction "length unv" arbitrary: unv net k0 rule: less_induct)
  case less
  show ?case
  proof (cases "unv = []")
    case True
    then show ?thesis by (subst spath_loop.simps) (simp add: spath_iteration_Nil)
  next
    case False
    from spath_iteration_total [OF False less.prems]
    obtain s net1 unv1 where it: "spath_iteration net unv = Inr (Some s, net1, unv1)" by blast
    have sh: "length unv1 < length unv" using it by (rule spath_iteration_shrinks)
    show ?thesis
    proof (cases "s = d")
      case True
      with it have "spath_loop net unv d k0 = Inr (Some d, net1, Suc k0)"
        by (subst spath_loop.simps) simp
      moreover have "Suc k0 \<le> k0 + length unv" using False by (cases unv) simp_all
      ultimately show ?thesis by blast
    next
      case ne: False
      from spath_iteration_Some [OF it] obtain i where
        n: "net1 = net\<lparr>nodes := relax_arcs s (nodes net) (arcs_out (nodes net ! i))\<rparr>"
        and u: "unv1 = removeAll s unv"
        by blast
      have "\<forall>x\<in>set unv1. get_node net1 x \<noteq> None" using less.prems n u by simp
      from less.hyps [OF sh this, of "Suc k0"]
      obtain r net' k where r: "spath_loop net1 unv1 d (Suc k0) = Inr (r, net', k)"
        and k: "k \<le> Suc k0 + length unv1"
        by blast
      from it ne r have "spath_loop net unv d k0 = Inr (r, net', k)"
        by (subst spath_loop.simps) simp
      moreover from k sh have "k \<le> k0 + length unv" by simp
      ultimately show ?thesis by blast
    qed
  qed
qed

lemma spath_initialise_None:
  assumes "get_node net s = None"
  shows "spath_initialise order net s = Inl AttributeError"
proof -
  have "find_node (map (\<lambda>n. n\<lparr>value := (PInf, None)\<rparr>) (nodes net)) s = find_node (nodes net) s"
    by (rule find_node_names) (simp add: comp_def)
  with assms show ?thesis by (simp add: spath_initialise_def get_node_def Let_def)
qed

lemma search_returns:
  assumes ord: "set_order order" and wf: "wf_network net" and nn: "nonneg_weights net"
  shows "\<exists>r. spath_algorithm (spec_globals order) net s d = Some r"
proof (cases "get_node net s")
  case None
  from spath_initialise_None [OF this] show ?thesis
    by (simp add: spath_algorithm_def spec_globals_def)
next
  case (Some i)
  show ?thesis
  proof (cases "get_node net d")
    case None
    from search_without_destination [OF ord Some None] show ?thesis by simp
  next
    case (Some j)
    from search_returns_minimum [OF ord wf nn \<open>get_node net s = Some i\<close> Some]
    show ?thesis by blast
  qed
qed

lemma iteration_removes_one:
  assumes "distinct u1" and "spath_iteration n1 u1 = Inr (Some x, n2, u2)"
  shows "Suc (length u2) = length u1"
proof -
  from spath_iteration_Some [OF assms(2)] have x: "x \<in> set u1" and u: "u2 = removeAll x u1"
    by blast+
  from assms(1) x have "length (removeAll x u1) = length u1 - 1"
    by (simp add: distinct_remove1_removeAll [symmetric] length_remove1)
  moreover from x have "0 < length u1" by (cases u1) auto
  ultimately show ?thesis using u by simp
qed

text \<open>
  C8 (as amended). In whatever order the unvisited set is iterated: for every network, the
  unvisited set that initialisation returns holds every node name once, a call of \<^verbatim>\<open>spath_iteration\<close> that solves a node removes exactly one
  name from a duplicate-free unvisited set, and the driver's loop ends after at most
  \<^verbatim>\<open>|nodes|\<close> calls that solve a node. When the network is well formed and its arc weights
  are non-negative, the call of the entry point returns.
\<close>

theorem search_terminates:
  assumes ord: "set_order order"
  shows "(wf_network net \<and> nonneg_weights net \<longrightarrow>
      (\<exists>r. spath_algorithm (spec_globals order) net s d = Some r)) \<and>
   (\<forall>net0 unv. spath_initialise order net s = Inr (net0, unv) \<longrightarrow>
      distinct unv \<and> set unv = set (map name (nodes net)) \<and>
      (\<exists>r net' k. spath_loop net0 unv d 0 = Inr (r, net', k) \<and> k \<le> length (nodes net))) \<and>
   (\<forall>n1 u1 x n2 u2. distinct u1 \<and> spath_iteration n1 u1 = Inr (Some x, n2, u2) \<longrightarrow>
      Suc (length u2) = length u1)"
proof (intro conjI allI impI)
  assume "wf_network net \<and> nonneg_weights net"
  then show "\<exists>r. spath_algorithm (spec_globals order) net s d = Some r"
    using search_returns [OF ord] by blast
next
  fix net0 unv assume init: "spath_initialise order net s = Inr (net0, unv)"
  from spath_initialise_Inr [OF init] obtain i where
    n0: "net0 = net\<lparr>nodes := init_nodes (nodes net) i\<rparr>"
    and u0: "unv = order (map name (nodes net))"
    by blast
  show du: "distinct unv" using u0 by (simp add: set_order_distinct [OF ord])
  show su: "set unv = set (map name (nodes net))" using u0 by (simp add: set_order_set [OF ord])
  have "\<forall>x\<in>set unv. get_node net0 x \<noteq> None"
    unfolding n0 using su by (simp add: get_node_mem)
  from spath_loop_bound [OF this, of d 0]
  obtain r net' k where "spath_loop net0 unv d 0 = Inr (r, net', k)" and "k \<le> length unv"
    by auto
  moreover have "length unv \<le> length (nodes net)"
  proof -
    have "length unv = card (set (map name (nodes net)))"
      using distinct_card [OF du] su by simp
    also have "\<dots> \<le> length (map name (nodes net))" by (rule card_length)
    finally show ?thesis by simp
  qed
  ultimately show "\<exists>r net' k. spath_loop net0 unv d 0 = Inr (r, net', k) \<and> k \<le> length (nodes net)"
    using order_trans by blast
next
  fix n1 u1 x n2 u2
  assume "distinct u1 \<and> spath_iteration n1 u1 = Inr (Some x, n2, u2)"
  then show "Suc (length u2) = length u1" using iteration_removes_one by blast
qed

theorem search_terminates_witness:
  "set_order remdups \<and> wf_network spec_scenario \<and> nonneg_weights spec_scenario \<and>
   (\<exists>r. spath_algorithm (spec_globals remdups) spec_scenario ''A'' ''C'' = Some r) \<and>
   spath_initialise remdups one_arc ''A'' = Inr (one_arc, [''A'', ''B'']) \<and>
   distinct [''A'', ''B''] \<and>
   (\<exists>r net' k. spath_loop one_arc [''A'', ''B''] ''B'' 0 = Inr (r, net', k) \<and>
      k \<le> length (nodes one_arc)) \<and>
   spath_iteration one_arc [''A'', ''B''] = Inr (Some ''A'', one_arc_relaxed, [''B'']) \<and>
   Suc (length [''B'']) = length [''A'', ''B'']"
proof -
  have a: "wf_network spec_scenario \<and> nonneg_weights spec_scenario" by code_simp
  have c: "spath_initialise remdups one_arc ''A'' = Inr (one_arc, [''A'', ''B''])" by code_simp
  have e: "spath_iteration one_arc [''A'', ''B''] = Inr (Some ''A'', one_arc_relaxed, [''B''])"
    by code_simp
  from search_terminates [OF set_order_remdups, where net = spec_scenario and s = "''A''"
      and d = "''C''"] a
  have 1: "\<exists>r. spath_algorithm (spec_globals remdups) spec_scenario ''A'' ''C'' = Some r" by blast
  from search_terminates [OF set_order_remdups, where net = one_arc and s = "''A''"
      and d = "''B''"] c
  have 2: "\<exists>r net' k. spath_loop one_arc [''A'', ''B''] ''B'' 0 = Inr (r, net', k) \<and>
      k \<le> length (nodes one_arc)" by blast
  from a c e 1 2 set_order_remdups show ?thesis by simp
qed

text \<open>
  The claim C8 as stated fails on the node with an arc of weight -1 to itself: the search
  from \<^verbatim>\<open>S\<close> to \<^verbatim>\<open>S\<close> solves \<^verbatim>\<open>S\<close>, which has become its own predecessor, and path
  extraction never ends.
\<close>

theorem negative_loop_never_returns:
  "spath_algorithm (spec_globals remdups) negative_loop ''S'' ''S'' = None"
  by (rule negative_loop_diverges)

section \<open>The entry point as the source file has it\<close>

text \<open>
  C9. With the names the source file binds, \<^verbatim>\<open>spath_algorithm\<close> raises a name error on
  every network, source and destination: its first statement calls \<^verbatim>\<open>spath_initialise\<close>,
  which the file does not define.
\<close>

theorem spath_algorithm_name_error:
  "spath_algorithm module_globals net source_name destination_name = Some (Inl NameError)"
  by (simp add: spath_algorithm_def module_globals_def)

section \<open>Path extraction\<close>

text \<open>
  C10. When the destination is a node of the network whose recorded predecessor is none,
  \<^verbatim>\<open>spath_extract_path\<close> returns the list of the destination name alone.
\<close>

theorem extract_path_no_predecessor:
  "get_node net d = Some i \<Longrightarrow> snd (value (nodes net ! i)) = None \<Longrightarrow>
   spath_extract_path net d = Some (Inr [d])"
  by (simp add: spath_extract_path_def extract_loop.simps)

theorem extract_path_no_predecessor_witness:
  "get_node two_isolated_nodes ''B'' = Some 1 \<and>
   snd (value (nodes two_isolated_nodes ! 1)) = None \<and>
   spath_extract_path two_isolated_nodes ''B'' = Some (Inr [''B''])"
proof -
  have a: "get_node two_isolated_nodes ''B'' = Some 1"
    by (simp add: get_node_def two_isolated_nodes_def)
  have b: "snd (value (nodes two_isolated_nodes ! 1)) = None"
    by (simp add: two_isolated_nodes_def)
  show ?thesis using a b extract_path_no_predecessor [OF a b] by simp
qed

section \<open>Nodes at distance \<^verbatim>\<open>+infinity\<close>\<close>

text \<open>
  C3. On an unvisited set whose only node stands at \<^verbatim>\<open>+infinity\<close>,
  \<^verbatim>\<open>spath_iteration\<close> does not return \<^verbatim>\<open>None\<close>: it returns the node's name and removes it
  from the unvisited set.
\<close>

theorem iteration_solves_infinite_node:
  "spath_iteration lone_node [''A''] = Inr (Some ''A'', lone_node, [])"
  by (simp add: spath_iteration_def lone_node_def dist_key_def get_node_def relax_arcs_def)

text \<open>
  C6. With two nodes and no arc, the search from \<^verbatim>\<open>A\<close> to \<^verbatim>\<open>B\<close> does not return
  \<^verbatim>\<open>(None, None)\<close>: it returns the distance \<^verbatim>\<open>+infinity\<close> and the path \<^verbatim>\<open>[B]\<close>.
\<close>

theorem unreachable_returns_infinity:
  "spath_algorithm (spec_globals remdups) two_isolated_nodes ''A'' ''B''
     = Some (Inr (Some PInf, Some [''B'']))"
  by code_simp

end
